theory Spec2Isabelle
  imports Main "HOL-Library.Word" "HOL-Library.Char_ord" "HOL-Library.List_Lexorder"
begin

section \<open>The conditions store of Endless Sky (source/ConditionsStore.cpp)\<close>

text \<open>
  A shallow embedding of \<^verbatim>\<open>ConditionsStore\<close>: a sorted index from condition names to
  entries, a registry of derived-condition providers, the resolution function
  \<^verbatim>\<open>GetEntry\<close>, the operations built on it, the iterator over primary conditions and the
  save and load functions.

  Conventions of the model.
  \<^item> \<^verbatim>\<open>int64_t\<close> is the type of 64-bit words; \<open>+\<close> wraps around.
  \<^item> \<^verbatim>\<open>std::string\<close> is \<open>string\<close>; \<^verbatim>\<open>std::less<std::string>\<close> is the lexicographic order on
    character lists, characters compared by their codes.
  \<^item> A \<^verbatim>\<open>std::map\<close> keyed by strings (the index \<^verbatim>\<open>storage\<close> and the registry
    \<^verbatim>\<open>providers\<close>) is a list of pairs in ascending key order; an iterator into it is a
    position, \<^verbatim>\<open>begin()\<close> is 0 and \<^verbatim>\<open>end()\<close> is the length.
  \<^item> A pointer to a map node is the node's key. So the \<^verbatim>\<open>DerivedProvider *\<close> of an entry is
    the key of the provider in the registry (\<^verbatim>\<open>providers\<close> is keyed by the provider's name
    and its nodes never move), and following a pointer that the registry does not hold is
    the error \<open>DanglingProvider\<close>.
  \<^item> The four callbacks of a provider are \<^verbatim>\<open>std::function\<close> objects, empty until set;
    calling an empty one raises \<^verbatim>\<open>std::bad_function_call\<close>, the error \<open>BadFunctionCall\<close>.
    A callback reads and writes the data of the subsystem that registered it, the
    component \<open>ext\<close> of the state, of an arbitrary type \<open>'e\<close>. Callbacks that call back
    into the store are outside the model.
  \<^item> Every operation takes the state and returns its result with the new state, or an
    error.
\<close>

subsection \<open>Data model\<close>

type_synonym int64 = "64 word"

datatype error = BadFunctionCall | DanglingProvider

text \<open>
  Modelled from the spec: the class declarations of ConditionsStore.h are not part of the
  sources at hand. \<open>DerivedProvider\<close> has the fields the spec lists: the registered
  name, the prefix flag and four callback slots.
\<close>

record 'e DerivedProvider =
  name :: string
  isPrefixProvider :: bool
  getFunction :: "(string \<Rightarrow> 'e \<Rightarrow> int64 \<times> 'e) option"
  hasFunction :: "(string \<Rightarrow> 'e \<Rightarrow> bool \<times> 'e) option"
  setFunction :: "(string \<Rightarrow> int64 \<Rightarrow> 'e \<Rightarrow> bool \<times> 'e) option"
  eraseFunction :: "(string \<Rightarrow> 'e \<Rightarrow> bool \<times> 'e) option"

text \<open>The constructor sets the name and the flag and leaves the four callbacks empty.\<close>

definition DerivedProvider_ctor :: "string \<Rightarrow> bool \<Rightarrow> 'e DerivedProvider" where
  "DerivedProvider_ctor nm isPrefix =
     \<lparr>name = nm, isPrefixProvider = isPrefix, getFunction = None, hasFunction = None,
      setFunction = None, eraseFunction = None\<rparr>"

definition SetGetFunction ::
  "(string \<Rightarrow> 'e \<Rightarrow> int64 \<times> 'e) option \<Rightarrow> 'e DerivedProvider \<Rightarrow> 'e DerivedProvider" where
  "SetGetFunction newGetFun p = p\<lparr>getFunction := newGetFun\<rparr>"

definition SetHasFunction ::
  "(string \<Rightarrow> 'e \<Rightarrow> bool \<times> 'e) option \<Rightarrow> 'e DerivedProvider \<Rightarrow> 'e DerivedProvider" where
  "SetHasFunction newHasFun p = p\<lparr>hasFunction := newHasFun\<rparr>"

definition SetSetFunction ::
  "(string \<Rightarrow> int64 \<Rightarrow> 'e \<Rightarrow> bool \<times> 'e) option \<Rightarrow> 'e DerivedProvider \<Rightarrow> 'e DerivedProvider" where
  "SetSetFunction newSetFun p = p\<lparr>setFunction := newSetFun\<rparr>"

definition SetEraseFunction ::
  "(string \<Rightarrow> 'e \<Rightarrow> bool \<times> 'e) option \<Rightarrow> 'e DerivedProvider \<Rightarrow> 'e DerivedProvider" where
  "SetEraseFunction newEraseFun p = p\<lparr>eraseFunction := newEraseFun\<rparr>"

text \<open>
  Modelled from the spec: \<open>ConditionEntry\<close> (declared in ConditionsStore.h) holds the
  inline value, the optional reference to a provider and the full key. A fresh entry, as
  \<^verbatim>\<open>storage[name]\<close> creates it, has value 0, no provider and an empty full key.
\<close>

record ConditionEntry =
  "value" :: int64
  provider :: "string option"
  fullKey :: string

definition ConditionEntry_default :: ConditionEntry where
  "ConditionEntry_default = \<lparr>value = 0, provider = None, fullKey = []\<rparr>"

text \<open>
  Modelled from the spec: the two members of \<open>ConditionsStore\<close> (declared in
  ConditionsStore.h), the sorted index \<open>storage\<close> and the registry \<open>providers\<close>. The
  third component, \<open>ext\<close>, is not a member: it is the data the callbacks work on.
\<close>

record 'e ConditionsStore =
  storage :: "(string \<times> ConditionEntry) list"
  providers :: "(string \<times> 'e DerivedProvider) list"
  ext :: 'e

definition ConditionsStore_ctor :: "'e \<Rightarrow> 'e ConditionsStore" where
  "ConditionsStore_ctor x = \<lparr>storage = [], providers = [], ext = x\<rparr>"

subsection \<open>The operations of \<^verbatim>\<open>std::map\<close> on a sorted list of pairs\<close>

text \<open>\<^verbatim>\<open>upper_bound(nm)\<close>: the position of the first key greater than \<open>nm\<close>.\<close>

fun upper_bound :: "string \<Rightarrow> (string \<times> 'v) list \<Rightarrow> nat" where
  "upper_bound nm [] = 0"
| "upper_bound nm ((k, v) # xs) = (if nm < k then 0 else Suc (upper_bound nm xs))"

text \<open>
  \<^verbatim>\<open>m[nm]\<close> and \<^verbatim>\<open>emplace\<close> insert a node in key order unless the key is there already;
  \<open>assign_at\<close> is a write through the reference they return.
\<close>

fun try_emplace :: "string \<Rightarrow> 'v \<Rightarrow> (string \<times> 'v) list \<Rightarrow> (string \<times> 'v) list" where
  "try_emplace nm d [] = [(nm, d)]"
| "try_emplace nm d ((k, v) # xs) =
     (if nm < k then (nm, d) # (k, v) # xs
      else if nm = k then (k, v) # xs
      else (k, v) # try_emplace nm d xs)"

definition assign_at :: "string \<Rightarrow> ('v \<Rightarrow> 'v) \<Rightarrow> (string \<times> 'v) list \<Rightarrow> (string \<times> 'v) list" where
  "assign_at nm f xs = map (\<lambda>(k, v). if k = nm then (k, f v) else (k, v)) xs"

definition erase_key :: "string \<Rightarrow> (string \<times> 'v) list \<Rightarrow> (string \<times> 'v) list" where
  "erase_key nm xs = filter (\<lambda>(k, v). k \<noteq> nm) xs"

subsection \<open>Resolution\<close>

text \<open>
  \<^verbatim>\<open>GetEntry\<close>: one search for the greatest key not above the name. The result is the
  node found (its key, with the entry read through the pointer) or \<open>None\<close> for
  \<^verbatim>\<open>nullptr\<close>. \<^verbatim>\<open>name.compare(0, n, s) == 0\<close> holds when the first \<open>n\<close> characters of
  the name are \<open>s\<close>.
\<close>

definition GetEntry ::
  "string \<Rightarrow> 'e ConditionsStore \<Rightarrow> error + (string \<times> ConditionEntry) option" where
  "GetEntry nm w =
     (if storage w = [] then Inr None
      else let it = upper_bound nm (storage w) in
        if it = 0 then Inr None
        else let (k, ce) = storage w ! (it - 1) in
          if nm = k then Inr (Some (k, ce))
          else (case provider ce of
                  None \<Rightarrow> Inr None
                | Some pn \<Rightarrow>
                    (case map_of (providers w) pn of
                       None \<Rightarrow> Inl DanglingProvider
                     | Some p \<Rightarrow>
                         if isPrefixProvider p \<and> take (length (name p)) nm = name p
                         then Inr (Some (k, ce))
                         else Inr None)))"

text \<open>Calling a callback: an empty one raises, a set one returns and updates \<open>ext\<close>.\<close>

definition invoke ::
  "('e \<Rightarrow> 'r \<times> 'e) option \<Rightarrow> 'e ConditionsStore \<Rightarrow> error + ('r \<times> 'e ConditionsStore)" where
  "invoke f w =
     (case f of
        None \<Rightarrow> Inl BadFunctionCall
      | Some g \<Rightarrow> (case g (ext w) of (r, x) \<Rightarrow> Inr (r, w\<lparr>ext := x\<rparr>)))"

subsection \<open>The operations of the store\<close>

definition Get :: "string \<Rightarrow> 'e ConditionsStore \<Rightarrow> error + (int64 \<times> 'e ConditionsStore)" where
  "Get nm w =
     (case GetEntry nm w of
        Inl err \<Rightarrow> Inl err
      | Inr None \<Rightarrow> Inr (0, w)
      | Inr (Some (k, ce)) \<Rightarrow>
          (case provider ce of
             None \<Rightarrow> Inr (value ce, w)
           | Some pn \<Rightarrow>
               (case map_of (providers w) pn of
                  None \<Rightarrow> Inl DanglingProvider
                | Some p \<Rightarrow> invoke (map_option (\<lambda>g. g nm) (getFunction p)) w)))"

definition Has :: "string \<Rightarrow> 'e ConditionsStore \<Rightarrow> error + (bool \<times> 'e ConditionsStore)" where
  "Has nm w =
     (case GetEntry nm w of
        Inl err \<Rightarrow> Inl err
      | Inr None \<Rightarrow> Inr (False, w)
      | Inr (Some (k, ce)) \<Rightarrow>
          (case provider ce of
             None \<Rightarrow> Inr (True, w)
           | Some pn \<Rightarrow>
               (case map_of (providers w) pn of
                  None \<Rightarrow> Inl DanglingProvider
                | Some p \<Rightarrow> invoke (map_option (\<lambda>h. h nm) (hasFunction p)) w)))"

definition Set ::
  "string \<Rightarrow> int64 \<Rightarrow> 'e ConditionsStore \<Rightarrow> error + (bool \<times> 'e ConditionsStore)" where
  "Set nm v w =
     (case GetEntry nm w of
        Inl err \<Rightarrow> Inl err
      | Inr None \<Rightarrow>
          Inr (True, w\<lparr>storage := assign_at nm (\<lambda>ce. ce\<lparr>value := v\<rparr>)
                                     (try_emplace nm ConditionEntry_default (storage w))\<rparr>)
      | Inr (Some (k, ce)) \<Rightarrow>
          (case provider ce of
             None \<Rightarrow> Inr (True, w\<lparr>storage := assign_at k (\<lambda>ce. ce\<lparr>value := v\<rparr>) (storage w)\<rparr>)
           | Some pn \<Rightarrow>
               (case map_of (providers w) pn of
                  None \<Rightarrow> Inl DanglingProvider
                | Some p \<Rightarrow> invoke (map_option (\<lambda>s. s nm v) (setFunction p)) w)))"

text \<open>\<^verbatim>\<open>Add\<close> is \<^verbatim>\<open>return Set(name, Get(name) + value);\<close>: the argument is evaluated first.\<close>

definition Add ::
  "string \<Rightarrow> int64 \<Rightarrow> 'e ConditionsStore \<Rightarrow> error + (bool \<times> 'e ConditionsStore)" where
  "Add nm v w =
     (case Get nm w of
        Inl err \<Rightarrow> Inl err
      | Inr (g, w1) \<Rightarrow> Set nm (g + v) w1)"

definition Erase :: "string \<Rightarrow> 'e ConditionsStore \<Rightarrow> error + (bool \<times> 'e ConditionsStore)" where
  "Erase nm w =
     (case GetEntry nm w of
        Inl err \<Rightarrow> Inl err
      | Inr None \<Rightarrow> Inr (True, w)
      | Inr (Some (k, ce)) \<Rightarrow>
          (case provider ce of
             None \<Rightarrow> Inr (True, w\<lparr>storage := erase_key nm (storage w)\<rparr>)
           | Some pn \<Rightarrow>
               (case map_of (providers w) pn of
                  None \<Rightarrow> Inl DanglingProvider
                | Some p \<Rightarrow> invoke (map_option (\<lambda>e. e nm) (eraseFunction p)) w)))"

text \<open>
  \<^verbatim>\<open>operator[]\<close>. The reference it returns is the entry stored under \<open>nm\<close> in the new
  state. \<^verbatim>\<open>ceprov\<close> is read after the insertion of the new node, which leaves the node it
  points to as it was.
\<close>

definition subscript :: "string \<Rightarrow> 'e ConditionsStore \<Rightarrow> error + 'e ConditionsStore" where
  "subscript nm w =
     (case map_of (storage w) nm of
        Some ce \<Rightarrow> Inr w
      | None \<Rightarrow>
          (case GetEntry nm w of
             Inl err \<Rightarrow> Inl err
           | Inr None \<Rightarrow>
               Inr (w\<lparr>storage := try_emplace nm ConditionEntry_default (storage w)\<rparr>)
           | Inr (Some (k, ceprov)) \<Rightarrow>
               Inr (w\<lparr>storage :=
                      assign_at nm (\<lambda>ce. ce\<lparr>provider := provider ceprov, fullKey := nm\<rparr>)
                        (try_emplace nm ConditionEntry_default (storage w))\<rparr>)))"

text \<open>
  Registration. The reference returned is the provider stored under the given name in
  the registry of the new state.
\<close>

definition GetProviderPrefixed :: "string \<Rightarrow> 'e ConditionsStore \<Rightarrow> 'e ConditionsStore" where
  "GetProviderPrefixed prefix w =
     w\<lparr>providers := try_emplace prefix (DerivedProvider_ctor prefix True) (providers w),
       storage := assign_at prefix (\<lambda>ce. ce\<lparr>provider := Some prefix\<rparr>)
                    (try_emplace prefix ConditionEntry_default (storage w))\<rparr>"

definition GetProviderNamed :: "string \<Rightarrow> 'e ConditionsStore \<Rightarrow> 'e ConditionsStore" where
  "GetProviderNamed nm w =
     w\<lparr>providers := try_emplace nm (DerivedProvider_ctor nm False) (providers w),
       storage := assign_at nm (\<lambda>ce. ce\<lparr>provider := Some nm\<rparr>)
                    (try_emplace nm ConditionEntry_default (storage w))\<rparr>"

text \<open>
  A call of one of the four setters on the provider reference \<open>pn\<close>, as returned by a
  registration: the provider stored under \<open>pn\<close> is updated in place.
\<close>

definition on_provider ::
  "string \<Rightarrow> ('e DerivedProvider \<Rightarrow> 'e DerivedProvider) \<Rightarrow> 'e ConditionsStore \<Rightarrow> 'e ConditionsStore" where
  "on_provider pn f w = w\<lparr>providers := assign_at pn f (providers w)\<rparr>"

definition Clear :: "'e ConditionsStore \<Rightarrow> 'e ConditionsStore" where
  "Clear w = w\<lparr>storage := [], providers := []\<rparr>"

subsection \<open>The iterator over primary conditions\<close>

text \<open>
  Modelled from the spec: the members of \<open>PrimariesIterator\<close> (declared in
  ConditionsStore.h): a position in the index, the end position, and the pair that
  dereferencing yields, a copy made when the iterator last moved.
\<close>

record PrimariesIterator =
  condMapIt :: nat
  condMapEnd :: nat
  itVal :: "string \<times> int64"

text \<open>
  The loop of \<^verbatim>\<open>MoveToValueCondition\<close>. Reading through an iterator that is not a
  position of the list, or moving one beyond the end, is undefined in C++: the result is
  \<open>None\<close>.
\<close>

function skip_providers :: "(string \<times> ConditionEntry) list \<Rightarrow> nat \<Rightarrow> nat \<Rightarrow> nat option" where
  "skip_providers xs it endIt =
     (if it \<noteq> endIt then
        (if it < length xs then
           (if provider (snd (xs ! it)) \<noteq> None then skip_providers xs (Suc it) endIt
            else Some it)
         else None)
      else Some it)"
  by pat_completeness auto
termination
  by (relation "measure (\<lambda>(xs, it, endIt). length xs - it)") auto

declare skip_providers.simps [simp del]

definition MoveToValueCondition ::
  "(string \<times> ConditionEntry) list \<Rightarrow> PrimariesIterator \<Rightarrow> PrimariesIterator option" where
  "MoveToValueCondition xs it =
     (case skip_providers xs (condMapIt it) (condMapEnd it) of
        None \<Rightarrow> None
      | Some j \<Rightarrow>
          if j \<noteq> condMapEnd it
          then Some (it\<lparr>condMapIt := j, itVal := (fst (xs ! j), value (snd (xs ! j)))\<rparr>)
          else Some (it\<lparr>condMapIt := j\<rparr>))"

definition PrimariesIterator_ctor ::
  "(string \<times> ConditionEntry) list \<Rightarrow> nat \<Rightarrow> nat \<Rightarrow> PrimariesIterator option" where
  "PrimariesIterator_ctor xs it endIt =
     MoveToValueCondition xs \<lparr>condMapIt = it, condMapEnd = endIt, itVal = ([], 0)\<rparr>"

definition operator_star :: "PrimariesIterator \<Rightarrow> string \<times> int64" where
  "operator_star it = itVal it"

definition operator_inc ::
  "(string \<times> ConditionEntry) list \<Rightarrow> PrimariesIterator \<Rightarrow> PrimariesIterator option" where
  "operator_inc xs it =
     (if condMapIt it < length xs
      then MoveToValueCondition xs (it\<lparr>condMapIt := Suc (condMapIt it)\<rparr>)
      else None)"

definition operator_neq :: "PrimariesIterator \<Rightarrow> PrimariesIterator \<Rightarrow> bool" where
  "operator_neq lhs rhs = (condMapIt lhs \<noteq> condMapIt rhs)"

definition PrimariesBegin :: "'e ConditionsStore \<Rightarrow> PrimariesIterator option" where
  "PrimariesBegin w = PrimariesIterator_ctor (storage w) 0 (length (storage w))"

definition PrimariesEnd :: "'e ConditionsStore \<Rightarrow> PrimariesIterator option" where
  "PrimariesEnd w =
     PrimariesIterator_ctor (storage w) (length (storage w)) (length (storage w))"

text \<open>The iterator only moves forward, which bounds the loops over it.\<close>

lemma skip_providers_ge:
  "skip_providers xs it endIt = Some j \<Longrightarrow> it \<le> j"
proof (induction xs it endIt rule: skip_providers.induct)
  case (1 xs it endIt)
  show ?case
  proof (cases "it \<noteq> endIt \<and> it < length xs \<and> provider (snd (xs ! it)) \<noteq> None")
    case True
    with "1.prems" have "skip_providers xs (Suc it) endIt = Some j"
      by (subst (asm) skip_providers.simps) simp
    with "1.IH" True have "Suc it \<le> j" by blast
    then show ?thesis by simp
  next
    case False
    with "1.prems" show ?thesis
      by (subst (asm) skip_providers.simps) (auto split: if_splits)
  qed
qed

lemma MoveToValueCondition_ge:
  "MoveToValueCondition xs it = Some it' \<Longrightarrow> condMapIt it \<le> condMapIt it'"
  by (auto simp: MoveToValueCondition_def split: option.splits if_splits dest: skip_providers_ge)

lemma operator_inc_gt:
  "operator_inc xs it = Some it' \<Longrightarrow> condMapIt it < condMapIt it' \<and> condMapIt it < length xs"
  by (auto simp: operator_inc_def split: if_splits dest: MoveToValueCondition_ge)

text \<open>
  The loop \<^verbatim>\<open>for(auto it = PrimariesBegin(); it != PrimariesEnd(); ++it)\<close>, with the loop
  body applied to the pair the iterator yields, as in \<^verbatim>\<open>Save\<close>.
\<close>

function for_primaries ::
  "'e ConditionsStore \<Rightarrow> (string \<times> int64 \<Rightarrow> 'a \<Rightarrow> 'a) \<Rightarrow> PrimariesIterator \<Rightarrow> 'a \<Rightarrow> 'a option" where
  "for_primaries w body it acc =
     (case PrimariesEnd w of
        None \<Rightarrow> None
      | Some e \<Rightarrow>
          if operator_neq it e then
            (case operator_inc (storage w) it of
               None \<Rightarrow> None
             | Some it' \<Rightarrow> for_primaries w body it' (body (operator_star it) acc))
          else Some acc)"
  by pat_completeness auto
termination
  by (relation "measure (\<lambda>(w, body, it, acc). length (storage w) - condMapIt it)")
     (auto dest: operator_inc_gt)

declare for_primaries.simps [simp del]

text \<open>The pairs that a traversal from \<^verbatim>\<open>PrimariesBegin()\<close> to \<^verbatim>\<open>PrimariesEnd()\<close> yields.\<close>

definition Primaries :: "'e ConditionsStore \<Rightarrow> (string \<times> int64) list option" where
  "Primaries w =
     (case PrimariesBegin w of
        None \<Rightarrow> None
      | Some b \<Rightarrow> for_primaries w (\<lambda>kv acc. acc @ [kv]) b [])"

subsection \<open>Saving and loading\<close>

text \<open>
  Modelled from the spec: \<open>DataNode\<close> and \<open>DataWriter\<close> are classes of the repository
  whose sources are not at hand. The spec describes the persisted form as a sequence of
  nodes, each a key token alone or a key token followed by a numeric token. A node is
  its key token, its numeric tokens and its children; \<^verbatim>\<open>Token(0)\<close> is the key,
  \<^verbatim>\<open>Size()\<close> the number of tokens and \<^verbatim>\<open>Value(i)\<close> the numeric token at position \<open>i\<close>
  (\<^verbatim>\<open>Load\<close> reads \<^verbatim>\<open>Value(1)\<close> only where \<^verbatim>\<open>Size()\<close> shows that the token exists).
  A writer keeps the lines written so far, each with its depth, and the current depth.
  \<open>read_back\<close> is the node that reading the written lines gives: the first line with
  the deeper lines after it as its children.
\<close>

datatype DataNode = DataNode (Token0: string) (Numbers: "int64 list") (Children: "DataNode list")

definition Size :: "DataNode \<Rightarrow> nat" where
  "Size node = Suc (length (Numbers node))"

definition Value :: "DataNode \<Rightarrow> nat \<Rightarrow> int64" where
  "Value node i = Numbers node ! (i - 1)"

record DataWriter =
  indent :: nat
  written :: "(nat \<times> string \<times> int64 list) list"

definition DataWriter_ctor :: DataWriter where
  "DataWriter_ctor = \<lparr>indent = 0, written = []\<rparr>"

definition Write :: "string \<Rightarrow> int64 list \<Rightarrow> DataWriter \<Rightarrow> DataWriter" where
  "Write key nums out = out\<lparr>written := written out @ [(indent out, key, nums)]\<rparr>"

definition BeginChild :: "DataWriter \<Rightarrow> DataWriter" where
  "BeginChild out = out\<lparr>indent := Suc (indent out)\<rparr>"

definition EndChild :: "DataWriter \<Rightarrow> DataWriter" where
  "EndChild out = out\<lparr>indent := indent out - 1\<rparr>"

definition read_back :: "DataWriter \<Rightarrow> DataNode option" where
  "read_back out =
     (case written out of
        [] \<Rightarrow> None
      | (d, key, nums) # rest \<Rightarrow>
          Some (DataNode key nums
                  (map (\<lambda>(i, k, ns). DataNode k ns []) (takeWhile (\<lambda>(i, k, ns). d < i) rest))))"

text \<open>\<^verbatim>\<open>Load\<close>: one \<^verbatim>\<open>Set\<close> for each child, in order; an exception ends the loop.\<close>

fun Load_children :: "DataNode list \<Rightarrow> 'e ConditionsStore \<Rightarrow> error + 'e ConditionsStore" where
  "Load_children [] w = Inr w"
| "Load_children (child # rest) w =
     (case Set (Token0 child) (if Size child \<ge> 2 then Value child 1 else 1) w of
        Inl err \<Rightarrow> Inl err
      | Inr (b, w') \<Rightarrow> Load_children rest w')"

definition Load :: "DataNode \<Rightarrow> 'e ConditionsStore \<Rightarrow> error + 'e ConditionsStore" where
  "Load node w = Load_children (Children node) w"

text \<open>The body of the loop of \<^verbatim>\<open>Save\<close>, and \<^verbatim>\<open>Save\<close>.\<close>

definition Save_body :: "string \<times> int64 \<Rightarrow> DataWriter \<Rightarrow> DataWriter" where
  "Save_body it out =
     (if snd it = 1 then Write (fst it) [] out
      else if snd it \<noteq> 0 then Write (fst it) [snd it] out
      else out)"

definition Save :: "'e ConditionsStore \<Rightarrow> DataWriter \<Rightarrow> DataWriter option" where
  "Save w out =
     (case PrimariesBegin w of
        None \<Rightarrow> None
      | Some b \<Rightarrow>
          (case PrimariesEnd w of
             None \<Rightarrow> None
           | Some e \<Rightarrow>
               if operator_neq b e then
                 (case PrimariesBegin w of
                    None \<Rightarrow> None
                  | Some it \<Rightarrow>
                      map_option EndChild
                        (for_primaries w Save_body it
                           (BeginChild (Write ''conditions'' [] out))))
               else Some out))"

text \<open>
  Loading what was saved into a store: nothing was written when there is no primary
  condition, and then nothing is loaded.
\<close>

definition Load_saved :: "DataWriter \<Rightarrow> 'e ConditionsStore \<Rightarrow> error + 'e ConditionsStore" where
  "Load_saved out w = (case read_back out of None \<Rightarrow> Inr w | Some node \<Rightarrow> Load node w)"

subsection \<open>\<open>Add\<close> as the spec words it\<close>

text \<open>
  The spec describes \<^verbatim>\<open>Add(name, delta)\<close> as equivalent to
  \<^verbatim>\<open>Set(name, Get(name) + delta)\<close>, always with two resolutions. \<open>Add_spec\<close> follows
  these words with the two resolutions spelled out: resolve the name and read the entry
  found as the spec describes \<^verbatim>\<open>Get\<close> (0 when there is none, the inline value, or the
  get callback), then resolve the name again and write the sum as the spec describes
  \<^verbatim>\<open>Set\<close> (create an inline entry, overwrite the inline value, or call the set callback).
\<close>

definition read_resolved ::
  "(string \<times> ConditionEntry) option \<Rightarrow> string \<Rightarrow> 'e ConditionsStore \<Rightarrow>
     error + (int64 \<times> 'e ConditionsStore)" where
  "read_resolved r nm w =
     (case r of
        None \<Rightarrow> Inr (0, w)
      | Some (k, ce) \<Rightarrow>
          (case provider ce of
             None \<Rightarrow> Inr (value ce, w)
           | Some pn \<Rightarrow>
               (case map_of (providers w) pn of
                  None \<Rightarrow> Inl DanglingProvider
                | Some p \<Rightarrow> invoke (map_option (\<lambda>g. g nm) (getFunction p)) w)))"

definition write_resolved ::
  "(string \<times> ConditionEntry) option \<Rightarrow> string \<Rightarrow> int64 \<Rightarrow> 'e ConditionsStore \<Rightarrow>
     error + (bool \<times> 'e ConditionsStore)" where
  "write_resolved r nm v w =
     (case r of
        None \<Rightarrow>
          Inr (True, w\<lparr>storage := assign_at nm (\<lambda>ce. ce\<lparr>value := v\<rparr>)
                                     (try_emplace nm ConditionEntry_default (storage w))\<rparr>)
      | Some (k, ce) \<Rightarrow>
          (case provider ce of
             None \<Rightarrow> Inr (True, w\<lparr>storage := assign_at k (\<lambda>ce. ce\<lparr>value := v\<rparr>) (storage w)\<rparr>)
           | Some pn \<Rightarrow>
               (case map_of (providers w) pn of
                  None \<Rightarrow> Inl DanglingProvider
                | Some p \<Rightarrow> invoke (map_option (\<lambda>s. s nm v) (setFunction p)) w)))"

definition Add_spec ::
  "string \<Rightarrow> int64 \<Rightarrow> 'e ConditionsStore \<Rightarrow> error + (bool \<times> 'e ConditionsStore)" where
  "Add_spec nm delta w =
     (case GetEntry nm w of
        Inl err \<Rightarrow> Inl err
      | Inr r1 \<Rightarrow>
          (case read_resolved r1 nm w of
             Inl err \<Rightarrow> Inl err
           | Inr (g, w1) \<Rightarrow>
               (case GetEntry nm w1 of
                  Inl err \<Rightarrow> Inl err
                | Inr r2 \<Rightarrow> write_resolved r2 nm (g + delta) w1)))"

subsection \<open>Well-formed stores\<close>

text \<open>
  A \<^verbatim>\<open>std::map\<close> keeps its keys in strictly ascending order. \<open>nearest\<close> names the node
  that \<^verbatim>\<open>GetEntry\<close> inspects: the one before \<^verbatim>\<open>upper_bound\<close>, if there is one.
\<close>

definition sorted_keys :: "(string \<times> 'v) list \<Rightarrow> bool" where
  "sorted_keys xs = sorted_wrt (<) (map fst xs)"

definition nearest :: "string \<Rightarrow> (string \<times> 'v) list \<Rightarrow> (string \<times> 'v) option" where
  "nearest nm xs = (if upper_bound nm xs = 0 then None else Some (xs ! (upper_bound nm xs - 1)))"

text \<open>
  The invariant of the store, as the spec states it: every entry that refers to a
  provider refers to one the registry holds, and the name of that provider is the key of
  the entry or a prefix of it.
\<close>

definition provider_invariant :: "'e ConditionsStore \<Rightarrow> bool" where
  "provider_invariant w =
     list_all (\<lambda>(k, ce).
        case provider ce of
          None \<Rightarrow> True
        | Some pn \<Rightarrow>
            (case map_of (providers w) pn of
               None \<Rightarrow> False
             | Some p \<Rightarrow> take (length (name p)) k = name p)) (storage w)"

text \<open>
  The states the operations produce: both maps are in key order, the registry is keyed
  by the names of its providers, and the invariant above holds.
\<close>

definition store_inv :: "'e ConditionsStore \<Rightarrow> bool" where
  "store_inv w =
     (sorted_keys (storage w) \<and> sorted_keys (providers w) \<and>
      list_all (\<lambda>(pn, p). name p = pn) (providers w) \<and> provider_invariant w)"

text \<open>
  A provider covers a key when it is a prefix provider and the key starts with its name,
  or an exact-name provider registered under the key.
\<close>

definition covers :: "'e DerivedProvider \<Rightarrow> string \<Rightarrow> bool" where
  "covers p k = (if isPrefixProvider p then take (length (name p)) k = name p else k = name p)"

text \<open>
  For the iterator: the entries without a provider, the pair an entry is read as, and
  the positions at which \<^verbatim>\<open>MoveToValueCondition\<close> leaves an iterator over the whole index
  (the end, or a primary entry whose pair the iterator holds).
\<close>

definition primary :: "string \<times> ConditionEntry \<Rightarrow> bool" where
  "primary kc = (provider (snd kc) = None)"

definition pair_of :: "string \<times> ConditionEntry \<Rightarrow> string \<times> int64" where
  "pair_of kc = (fst kc, value (snd kc))"

definition settled :: "(string \<times> ConditionEntry) list \<Rightarrow> PrimariesIterator \<Rightarrow> bool" where
  "settled xs it =
     (condMapEnd it = length xs \<and> condMapIt it \<le> length xs \<and>
      (condMapIt it < length xs \<longrightarrow>
         primary (xs ! condMapIt it) \<and> itVal it = pair_of (xs ! condMapIt it)))"

text \<open>
  For saving and loading: the value stored under a key, the line \<^verbatim>\<open>Save\<close> writes for a
  pair at a depth, and the node that line is read back as.
\<close>

definition node_of :: "string \<times> int64 \<Rightarrow> DataNode" where
  "node_of kv = DataNode (fst kv) (if snd kv = 1 then [] else [snd kv]) []"

definition value_at :: "'e ConditionsStore \<Rightarrow> string \<Rightarrow> int64 option" where
  "value_at w k = map_option value (map_of (storage w) k)"

definition line_of :: "nat \<Rightarrow> string \<times> int64 \<Rightarrow> nat \<times> string \<times> int64 list" where
  "line_of d kv = (d, fst kv, if snd kv = 1 then [] else [snd kv])"

text \<open>
  A prefix provider is registered for \<open>p\<close>: the registry holds a prefix provider under
  \<open>p\<close> and the entry of the index at \<open>p\<close> refers to it. This is what
  \<^verbatim>\<open>GetProviderPrefixed\<close> leaves when no provider was registered under \<open>p\<close> before.
\<close>

definition registered_prefix :: "'e ConditionsStore \<Rightarrow> string \<Rightarrow> bool" where
  "registered_prefix w p =
     (case map_of (providers w) p of
        None \<Rightarrow> False
      | Some P \<Rightarrow>
          isPrefixProvider P \<and>
          (case map_of (storage w) p of None \<Rightarrow> False | Some ep \<Rightarrow> provider ep = Some p))"

section \<open>Concrete stores\<close>

text \<open>A store with one prefix provider, registered for the prefix \<open>events: \<close>.\<close>

definition events_store :: "int64 ConditionsStore" where
  "events_store = GetProviderPrefixed ''events: '' (ConditionsStore_ctor 0)"

text \<open>
  The same store with the four callbacks of the provider set: the data of the callbacks
  is one counter, which get returns and set overwrites; has answers true and erase
  refuses.
\<close>

definition counter_callbacks :: "int64 DerivedProvider \<Rightarrow> int64 DerivedProvider" where
  "counter_callbacks p =
     SetEraseFunction (Some (\<lambda>k x. (False, x)))
       (SetSetFunction (Some (\<lambda>k v x. (True, v)))
          (SetHasFunction (Some (\<lambda>k x. (True, x)))
             (SetGetFunction (Some (\<lambda>k x. (x, x))) p)))"

definition wired_store :: "int64 ConditionsStore" where
  "wired_store = on_provider ''events: '' counter_callbacks events_store"

text \<open>
  The scenario of the spec: primary conditions \<open>a = 1\<close> and \<open>b = 2\<close>, and an entry
  \<open>c\<close> backed by an exact-name provider.
\<close>

definition scenario_store :: "int64 ConditionsStore" where
  "scenario_store =
     \<lparr>storage = [(''a'', \<lparr>value = 1, provider = None, fullKey = []\<rparr>),
                 (''b'', \<lparr>value = 2, provider = None, fullKey = []\<rparr>),
                 (''c'', \<lparr>value = 0, provider = Some ''c'', fullKey = []\<rparr>)],
      providers = [(''c'', DerivedProvider_ctor ''c'' False)],
      ext = 0\<rparr>"

text \<open>
  A store of primary conditions only, one of them with value 0, and the store that
  loading its saved form gives.
\<close>

definition saved_store :: "int64 ConditionsStore" where
  "saved_store =
     \<lparr>storage = [(''a'', \<lparr>value = 1, provider = None, fullKey = []\<rparr>),
                 (''b'', \<lparr>value = 2, provider = None, fullKey = []\<rparr>),
                 (''z'', \<lparr>value = 0, provider = None, fullKey = []\<rparr>)],
      providers = [], ext = 0\<rparr>"

definition reloaded_store :: "int64 ConditionsStore" where
  "reloaded_store =
     \<lparr>storage = [(''a'', \<lparr>value = 1, provider = None, fullKey = []\<rparr>),
                 (''b'', \<lparr>value = 2, provider = None, fullKey = []\<rparr>)],
      providers = [], ext = 0\<rparr>"





text \<open>
  A primary condition \<open>ab\<close> set before a prefix provider is registered for \<open>a\<close>; the
  callbacks are those of the counter, which holds 7.
\<close>

definition primed_store :: "int64 ConditionsStore" where
  "primed_store =
     \<lparr>storage = [(''ab'', \<lparr>value = 5, provider = None, fullKey = []\<rparr>)],
      providers = [], ext = 7\<rparr>"

definition shadowed_store :: "int64 ConditionsStore" where
  "shadowed_store = on_provider ''a'' counter_callbacks (GetProviderPrefixed ''a'' primed_store)"

text \<open>
  The counter's prefix provider for \<open>a\<close>, the key \<open>az\<close> then brought into the index with
  \<^verbatim>\<open>operator[]\<close>, and a named provider registered for \<open>am\<close> after that: its entry
  lies between the prefix and \<open>az\<close>. Likewise \<open>events: x\<close> is brought into the index
  of the store with the length provider before the named provider for \<open>events: won\<close>
  is registered.
\<close>

definition az_store :: "int64 ConditionsStore" where
  "az_store =
     \<lparr>storage = [(''a'', \<lparr>value = 0, provider = Some ''a'', fullKey = []\<rparr>),
                 (''az'', \<lparr>value = 0, provider = Some ''a'', fullKey = ''az''\<rparr>)],
      providers = [(''a'', counter_callbacks (DerivedProvider_ctor ''a'' True))],
      ext = 7\<rparr>"

definition between_store :: "int64 ConditionsStore" where
  "between_store = GetProviderNamed ''am'' az_store"



section \<open>Lemmas on the sorted maps\<close>

lemma nearest_Nil: "nearest nm [] = None"
  by (simp add: nearest_def)

lemma nearest_Cons:
  "nearest nm ((k, v) # xs) =
     (if nm < k then None else (case nearest nm xs of None \<Rightarrow> Some (k, v) | Some r \<Rightarrow> Some r))"
  by (simp add: nearest_def)

lemma sorted_keys_Cons:
  "sorted_keys ((k, v) # xs) = ((\<forall>k'\<in>fst ` set xs. k < k') \<and> sorted_keys xs)"
  by (auto simp: sorted_keys_def)

lemma sorted_keys_Nil: "sorted_keys []"
  by (simp add: sorted_keys_def)

lemma nearest_None:
  "sorted_keys xs \<Longrightarrow> nearest nm xs = None \<longleftrightarrow> (\<forall>k\<in>fst ` set xs. nm < k)"
proof (induction xs)
  case Nil
  show ?case by (simp add: nearest_Nil)
next
  case (Cons a xs)
  obtain k v where a: "a = (k, v)" by (cases a)
  from Cons.prems have lt: "\<forall>k'\<in>fst ` set xs. k < k'" and s: "sorted_keys xs"
    by (simp_all add: a sorted_keys_Cons)
  show ?case
  proof (cases "nm < k")
    case True
    with lt have "\<forall>k'\<in>fst ` set xs. nm < k'" by (meson less_trans)
    with True show ?thesis by (simp add: a nearest_Cons)
  next
    case False
    then show ?thesis by (simp add: a nearest_Cons split: option.split)
  qed
qed

lemma nearest_Some:
  "sorted_keys xs \<Longrightarrow> nearest nm xs = Some (k, v) \<Longrightarrow>
     (k, v) \<in> set xs \<and> k \<le> nm \<and> (\<forall>k'\<in>fst ` set xs. k' \<le> nm \<longrightarrow> k' \<le> k)"
proof (induction xs)
  case Nil
  then show ?case by (simp add: nearest_Nil)
next
  case (Cons a xs)
  obtain k0 v0 where a: "a = (k0, v0)" by (cases a)
  from Cons.prems have lt: "\<forall>k'\<in>fst ` set xs. k0 < k'" and s: "sorted_keys xs"
    by (simp_all add: a sorted_keys_Cons)
  from Cons.prems(2) have nlt: "\<not> nm < k0"
    by (auto simp: a nearest_Cons split: if_splits)
  show ?case
  proof (cases "nearest nm xs")
    case None
    with Cons.prems(2) nlt have kv: "k = k0" "v = v0" by (simp_all add: a nearest_Cons)
    from None s have "\<forall>k'\<in>fst ` set xs. nm < k'" by (simp add: nearest_None)
    with kv nlt show ?thesis by (auto simp: a)
  next
    case (Some r)
    with Cons.prems(2) nlt have r: "nearest nm xs = Some (k, v)" by (simp add: a nearest_Cons)
    from Cons.IH [OF s r] have ih: "(k, v) \<in> set xs" "k \<le> nm" "\<forall>k'\<in>fst ` set xs. k' \<le> nm \<longrightarrow> k' \<le> k"
      by auto
    from ih(1) lt have "k0 < k" by force
    with ih show ?thesis by (auto simp: a)
  qed
qed

lemma sorted_keys_map_of:
  "sorted_keys xs \<Longrightarrow> (k, v) \<in> set xs \<longleftrightarrow> map_of xs k = Some v"
proof -
  assume "sorted_keys xs"
  then have "distinct (map fst xs)"
    unfolding sorted_keys_def by (simp add: strict_sorted_iff)
  then show ?thesis by simp
qed

lemma map_of_Some_key: "map_of xs k = Some v \<Longrightarrow> k \<in> fst ` set xs"
  by (force dest: map_of_SomeD)

lemma nearest_exact:
  assumes "sorted_keys xs" "map_of xs nm = Some v"
  shows "nearest nm xs = Some (nm, v)"
proof (cases "nearest nm xs")
  case None
  with assms(1) have "\<forall>k\<in>fst ` set xs. nm < k" by (simp add: nearest_None)
  moreover from assms(2) have "nm \<in> fst ` set xs" by (rule map_of_Some_key)
  ultimately show ?thesis by auto
next
  case (Some r)
  obtain k u where r: "r = (k, u)" by (cases r)
  from nearest_Some [OF assms(1) Some [unfolded r]]
  have 1: "(k, u) \<in> set xs" "k \<le> nm" "\<forall>k'\<in>fst ` set xs. k' \<le> nm \<longrightarrow> k' \<le> k" by auto
  from assms(2) have "nm \<in> fst ` set xs" by (rule map_of_Some_key)
  with 1 have "k = nm" by force
  with 1(1) assms show ?thesis by (simp add: Some r sorted_keys_map_of)
qed

lemma nearest_greatest:
  assumes "sorted_keys xs" "map_of xs k = Some v" "k \<le> nm"
    "\<forall>k'\<in>fst ` set xs. k' \<le> nm \<longrightarrow> k' \<le> k"
  shows "nearest nm xs = Some (k, v)"
proof (cases "nearest nm xs")
  case None
  with assms(1) have "\<forall>k\<in>fst ` set xs. nm < k" by (simp add: nearest_None)
  moreover from assms(2) have "k \<in> fst ` set xs" by (rule map_of_Some_key)
  ultimately show ?thesis using assms(3) by auto
next
  case (Some r)
  obtain j u where r: "r = (j, u)" by (cases r)
  from nearest_Some [OF assms(1) Some [unfolded r]]
  have 1: "(j, u) \<in> set xs" "j \<le> nm" "\<forall>k'\<in>fst ` set xs. k' \<le> nm \<longrightarrow> k' \<le> j" by auto
  from assms(2) have "k \<in> fst ` set xs" by (rule map_of_Some_key)
  with 1 assms(3) have "k \<le> j" by blast
  moreover from 1(1,2) assms(4) have "j \<le> k" by force
  ultimately have "j = k" by simp
  with 1(1) assms show ?thesis by (simp add: Some r sorted_keys_map_of)
qed

lemma GetEntry_nearest:
  "GetEntry nm w =
     (case nearest nm (storage w) of
        None \<Rightarrow> Inr None
      | Some (k, ce) \<Rightarrow>
          if nm = k then Inr (Some (k, ce))
          else (case provider ce of
                  None \<Rightarrow> Inr None
                | Some pn \<Rightarrow>
                    (case map_of (providers w) pn of
                       None \<Rightarrow> Inl DanglingProvider
                     | Some p \<Rightarrow>
                         if isPrefixProvider p \<and> take (length (name p)) nm = name p
                         then Inr (Some (k, ce))
                         else Inr None)))"
  by (simp add: GetEntry_def nearest_def Let_def)

lemma fst_set_try_emplace: "fst ` set (try_emplace nm d xs) = insert nm (fst ` set xs)"
proof (induction xs)
  case Nil
  show ?case by simp
next
  case (Cons a xs)
  obtain k v where a: "a = (k, v)" by (cases a)
  show ?case
    using Cons.IH by (cases "nm < k"; cases "nm = k"; simp add: a insert_commute)
qed

lemma sorted_try_emplace: "sorted_keys xs \<Longrightarrow> sorted_keys (try_emplace nm d xs)"
proof (induction xs)
  case Nil
  show ?case by (simp add: sorted_keys_def)
next
  case (Cons a xs)
  obtain k v where a: "a = (k, v)" by (cases a)
  from Cons.prems have lt: "\<forall>k'\<in>fst ` set xs. k < k'" and s: "sorted_keys xs"
    by (simp_all add: a sorted_keys_Cons)
  show ?case
  proof (cases "nm < k")
    case True
    with lt have "\<forall>k'\<in>fst ` set xs. nm < k'" by (meson less_trans)
    with True Cons.prems show ?thesis by (simp add: a sorted_keys_Cons)
  next
    case False
    show ?thesis
    proof (cases "nm = k")
      case True
      with Cons.prems show ?thesis by (simp add: a)
    next
      case ne: False
      with False have "k < nm" by simp
      with lt Cons.IH [OF s] False ne show ?thesis
        by (simp add: a sorted_keys_Cons fst_set_try_emplace)
    qed
  qed
qed

lemma map_of_try_emplace:
  "sorted_keys xs \<Longrightarrow>
     map_of (try_emplace nm d xs) k =
       (if k = nm \<and> map_of xs nm = None then Some d else map_of xs k)"
proof (induction xs)
  case Nil
  show ?case by simp
next
  case (Cons a xs)
  obtain k0 v0 where a: "a = (k0, v0)" by (cases a)
  from Cons.prems have lt: "\<forall>k'\<in>fst ` set xs. k0 < k'" and s: "sorted_keys xs"
    by (simp_all add: a sorted_keys_Cons)
  show ?case
  proof (cases "nm < k0")
    case True
    with lt have "\<forall>k'\<in>fst ` set xs. nm < k'" by (meson less_trans)
    then have "nm \<notin> fst ` set xs" by auto
    then have "map_of xs nm = None" by (simp add: map_of_eq_None_iff)
    with True show ?thesis by (auto simp: a)
  next
    case False
    with Cons.IH [OF s] show ?thesis by (auto simp: a)
  qed
qed

lemma map_fst_assign_at: "map fst (assign_at nm f xs) = map fst xs"
  by (induction xs) (auto simp: assign_at_def)

lemma sorted_assign_at: "sorted_keys (assign_at nm f xs) = sorted_keys xs"
  by (simp add: sorted_keys_def map_fst_assign_at)

lemma map_of_assign_at:
  "map_of (assign_at nm f xs) k = (if k = nm then map_option f (map_of xs nm) else map_of xs k)"
  by (induction xs) (auto simp: assign_at_def)

lemma sorted_erase_key: "sorted_keys xs \<Longrightarrow> sorted_keys (erase_key nm xs)"
  unfolding sorted_keys_def erase_key_def
  by (induction xs) auto

lemma map_of_erase_key:
  "map_of (erase_key nm xs) k = (if k = nm then None else map_of xs k)"
  by (induction xs) (auto simp: erase_key_def)

lemma list_all_map_of:
  "sorted_keys xs \<Longrightarrow> list_all P xs \<longleftrightarrow> (\<forall>k v. map_of xs k = Some v \<longrightarrow> P (k, v))"
  by (auto simp: list_all_iff sorted_keys_map_of)

lemma nearest_in_map:
  "sorted_keys xs \<Longrightarrow> nearest nm xs = Some (k, v) \<Longrightarrow> map_of xs k = Some v"
  using nearest_Some [of xs nm k v] by (simp add: sorted_keys_map_of)

lemma nearest_absent:
  assumes "sorted_keys xs" "map_of xs nm = None" "nearest nm xs = Some (k, v)"
  shows "k \<noteq> nm"
  using nearest_in_map [OF assms(1,3)] assms(2) by auto

lemma provider_invariant_iff:
  assumes "sorted_keys (storage w)"
  shows "provider_invariant w \<longleftrightarrow>
     (\<forall>k ce pn. map_of (storage w) k = Some ce \<longrightarrow> provider ce = Some pn \<longrightarrow>
        (\<exists>p. map_of (providers w) pn = Some p \<and> take (length (name p)) k = name p))"
proof -
  have "provider_invariant w \<longleftrightarrow>
     (\<forall>k ce. map_of (storage w) k = Some ce \<longrightarrow>
        (case provider ce of None \<Rightarrow> True
         | Some pn \<Rightarrow> (case map_of (providers w) pn of None \<Rightarrow> False
              | Some p \<Rightarrow> take (length (name p)) k = name p)))"
    unfolding provider_invariant_def by (simp add: list_all_map_of [OF assms])
  also have "\<dots> \<longleftrightarrow>
     (\<forall>k ce pn. map_of (storage w) k = Some ce \<longrightarrow> provider ce = Some pn \<longrightarrow>
        (\<exists>p. map_of (providers w) pn = Some p \<and> take (length (name p)) k = name p))"
    by (intro all_cong1 imp_cong refl) (simp split: option.split)
  finally show ?thesis .
qed

lemma store_inv_iff:
  "store_inv w \<longleftrightarrow>
     sorted_keys (storage w) \<and> sorted_keys (providers w) \<and>
     (\<forall>pn p. map_of (providers w) pn = Some p \<longrightarrow> name p = pn) \<and>
     (\<forall>k ce pn. map_of (storage w) k = Some ce \<longrightarrow> provider ce = Some pn \<longrightarrow>
        (\<exists>p. map_of (providers w) pn = Some p \<and> take (length (name p)) k = name p))"
proof (cases "sorted_keys (storage w) \<and> sorted_keys (providers w)")
  case True
  then show ?thesis
    unfolding store_inv_def
    by (simp add: provider_invariant_iff list_all_map_of)
next
  case False
  then show ?thesis unfolding store_inv_def by auto
qed

section \<open>Lemmas on resolution\<close>

lemma GetEntry_uncovered:
  assumes "store_inv w" "map_of (storage w) k = None"
    "list_all (\<lambda>(pn, p). \<not> covers p k) (providers w)"
  shows "GetEntry k w = Inr None"
proof (cases "nearest k (storage w)")
  case None
  then show ?thesis by (simp add: GetEntry_nearest)
next
  case (Some r)
  obtain j ce where r: "r = (j, ce)" by (cases r)
  from assms(1) have s: "sorted_keys (storage w)" and sp: "sorted_keys (providers w)"
    by (simp_all add: store_inv_iff)
  from Some r have n: "nearest k (storage w) = Some (j, ce)" by simp
  have jk: "k \<noteq> j" using nearest_absent [OF s assms(2) n] by simp
  have m: "map_of (storage w) j = Some ce" by (rule nearest_in_map [OF s n])
  show ?thesis
  proof (cases "provider ce")
    case None
    with n jk show ?thesis by (simp add: GetEntry_nearest)
  next
    case (Some pn)
    from assms(1) m Some obtain p where p: "map_of (providers w) pn = Some p"
      unfolding store_inv_iff by blast
    from assms(3) p sp have "\<not> covers p k" by (auto simp: list_all_map_of)
    then have "\<not> (isPrefixProvider p \<and> take (length (name p)) k = name p)"
      by (auto simp: covers_def)
    with n jk Some p show ?thesis by (simp add: GetEntry_nearest)
  qed
qed

lemma GetEntry_exact:
  assumes "sorted_keys (storage w)" "map_of (storage w) k = Some ce"
  shows "GetEntry k w = Inr (Some (k, ce))"
  using nearest_exact [OF assms] by (simp add: GetEntry_nearest)

lemma GetEntry_None_absent:
  assumes "sorted_keys (storage w)" "GetEntry k w = Inr None"
  shows "map_of (storage w) k = None"
proof (cases "map_of (storage w) k")
  case None
  then show ?thesis .
next
  case (Some ce)
  from GetEntry_exact [OF assms(1) Some] assms(2) show ?thesis by simp
qed

lemma GetEntry_inline:
  assumes "sorted_keys (storage w)" "GetEntry k w = Inr (Some (j, ce))" "provider ce = None"
  shows "j = k \<and> map_of (storage w) k = Some ce"
proof (cases "nearest k (storage w)")
  case None
  with assms(2) show ?thesis by (simp add: GetEntry_nearest)
next
  case (Some r)
  obtain i c where r: "r = (i, c)" by (cases r)
  from Some r have n: "nearest k (storage w) = Some (i, c)" by simp
  from assms(2) n have ic: "i = j \<and> c = ce"
    by (auto simp: GetEntry_nearest split: if_splits option.splits)
  with assms(2,3) n have "k = j"
    by (auto simp: GetEntry_nearest split: if_splits)
  with ic nearest_in_map [OF assms(1) n] show ?thesis by simp
qed

lemma Get_inline:
  assumes "sorted_keys (storage w)" "map_of (storage w) k = Some ce" "provider ce = None"
  shows "Get k w = Inr (value ce, w)" "Has k w = Inr (True, w)"
  using GetEntry_exact [OF assms(1,2)] assms(3) by (simp_all add: Get_def Has_def)

lemma invoke_Some:
  "invoke (Some g) w = Inr (fst (g (ext w)), w\<lparr>ext := snd (g (ext w))\<rparr>)"
  by (simp add: invoke_def split: prod.split)

lemma invoke_Inr:
  "invoke f w = Inr (r, w') \<Longrightarrow> \<exists>x. w' = w\<lparr>ext := x\<rparr>"
  by (auto simp: invoke_def split: option.splits prod.splits)

lemmas events_store_defs = events_store_def GetProviderPrefixed_def ConditionsStore_ctor_def
  assign_at_def ConditionEntry_default_def DerivedProvider_ctor_def

lemma GetEntry_ext: "GetEntry nm (w\<lparr>ext := x\<rparr>) = GetEntry nm w"
  by (simp add: GetEntry_def Let_def split: prod.split option.split)

lemma self_ext: "\<exists>x. w = w\<lparr>ext := x\<rparr>"
  by (rule exI [of _ "ext w"]) simp

lemma Get_Inr:
  assumes "Get nm w = Inr (g, w1)"
  shows "\<exists>x. w1 = w\<lparr>ext := x\<rparr>"
proof -
  from assms consider "w1 = w" | f where "invoke f w = Inr (g, w1)"
    by (auto simp: Get_def split: sum.splits option.splits)
  then show ?thesis
  proof cases
    case 1
    with self_ext [of w] show ?thesis by simp
  next
    case 2
    then show ?thesis by (rule invoke_Inr)
  qed
qed

lemmas wired_store_defs = wired_store_def on_provider_def counter_callbacks_def
  SetGetFunction_def SetHasFunction_def SetSetFunction_def SetEraseFunction_def
  events_store_defs

lemma wired_store_eq:
  "wired_store =
     \<lparr>storage = [(''events: '', \<lparr>value = 0, provider = Some ''events: '', fullKey = []\<rparr>)],
      providers = [(''events: '',
         \<lparr>name = ''events: '', isPrefixProvider = True,
          getFunction = Some (\<lambda>k x. (x, x)), hasFunction = Some (\<lambda>k x. (True, x)),
          setFunction = Some (\<lambda>k v x. (True, v)), eraseFunction = Some (\<lambda>k x. (False, x))\<rparr>)],
      ext = 0\<rparr>"
  by (simp add: wired_store_defs)

section \<open>The invariant is preserved\<close>

lemma store_inv_ext: "store_inv (w\<lparr>ext := x\<rparr>) = store_inv w"
  by (simp add: store_inv_iff)

lemma name_ctor: "name (DerivedProvider_ctor pn b) = pn"
  by (simp add: DerivedProvider_ctor_def)

lemma store_inv_storage:
  assumes "store_inv w" "sorted_keys xs'"
    and "\<And>k ce pn. map_of xs' k = Some ce \<Longrightarrow> provider ce = Some pn \<Longrightarrow>
           (\<exists>ce0. map_of (storage w) k = Some ce0 \<and> provider ce0 = Some pn) \<or>
           (\<exists>p. map_of (providers w) pn = Some p \<and> take (length (name p)) k = name p)"
  shows "store_inv (w\<lparr>storage := xs'\<rparr>)"
proof -
  from assms(1) have inv:
    "sorted_keys (providers w)"
    "\<forall>pn p. map_of (providers w) pn = Some p \<longrightarrow> name p = pn"
    "\<forall>k ce pn. map_of (storage w) k = Some ce \<longrightarrow> provider ce = Some pn \<longrightarrow>
        (\<exists>p. map_of (providers w) pn = Some p \<and> take (length (name p)) k = name p)"
    by (simp_all add: store_inv_iff)
  have "\<exists>p. map_of (providers w) pn = Some p \<and> take (length (name p)) k = name p"
    if "map_of xs' k = Some ce" "provider ce = Some pn" for k ce pn
    using assms(3) [OF that] inv(3) by blast
  with inv(1,2) assms(2) show ?thesis by (simp add: store_inv_iff)
qed

lemma store_inv_emplace_provider:
  assumes "store_inv w"
  shows "store_inv (w\<lparr>providers := try_emplace pn (DerivedProvider_ctor pn b) (providers w)\<rparr>)"
proof -
  let ?ps = "try_emplace pn (DerivedProvider_ctor pn b) (providers w)"
  from assms have inv:
    "sorted_keys (storage w)"
    "sorted_keys (providers w)"
    "\<forall>pn p. map_of (providers w) pn = Some p \<longrightarrow> name p = pn"
    "\<forall>k ce pn. map_of (storage w) k = Some ce \<longrightarrow> provider ce = Some pn \<longrightarrow>
        (\<exists>p. map_of (providers w) pn = Some p \<and> take (length (name p)) k = name p)"
    by (simp_all add: store_inv_iff)
  have m: "map_of ?ps q =
      (if q = pn \<and> map_of (providers w) pn = None then Some (DerivedProvider_ctor pn b)
       else map_of (providers w) q)" for q
    by (rule map_of_try_emplace [OF inv(2)])
  have 1: "sorted_keys ?ps" by (rule sorted_try_emplace [OF inv(2)])
  have 2: "\<forall>q p. map_of ?ps q = Some p \<longrightarrow> name p = q"
    using inv(3) by (auto simp: m name_ctor split: if_splits)
  have 3: "\<forall>k ce q. map_of (storage w) k = Some ce \<longrightarrow> provider ce = Some q \<longrightarrow>
        (\<exists>p. map_of ?ps q = Some p \<and> take (length (name p)) k = name p)"
  proof (intro allI impI)
    fix k ce q assume "map_of (storage w) k = Some ce" "provider ce = Some q"
    with inv(4) obtain p where p: "map_of (providers w) q = Some p"
      "take (length (name p)) k = name p" by blast
    then have "map_of ?ps q = Some p" by (auto simp: m)
    with p(2) show "\<exists>p. map_of ?ps q = Some p \<and> take (length (name p)) k = name p" by blast
  qed
  from inv(1) 1 2 3 show ?thesis by (simp add: store_inv_iff)
qed

lemma map_of_emplaced:
  assumes "store_inv w"
  shows "\<exists>p. map_of (try_emplace pn (DerivedProvider_ctor pn b) (providers w)) pn = Some p \<and>
             name p = pn"
proof -
  from assms have inv: "sorted_keys (providers w)"
    "\<forall>pn p. map_of (providers w) pn = Some p \<longrightarrow> name p = pn"
    by (simp_all add: store_inv_iff)
  show ?thesis
    using inv(2) by (cases "map_of (providers w) pn")
      (simp_all add: map_of_try_emplace [OF inv(1)] name_ctor)
qed

lemma store_inv_register:
  assumes "store_inv w"
  shows "store_inv (w\<lparr>providers := try_emplace pn (DerivedProvider_ctor pn b) (providers w),
                      storage := assign_at pn (\<lambda>ce. ce\<lparr>provider := Some pn\<rparr>)
                        (try_emplace pn ConditionEntry_default (storage w))\<rparr>)"
proof -
  let ?w1 = "w\<lparr>providers := try_emplace pn (DerivedProvider_ctor pn b) (providers w)\<rparr>"
  let ?xs = "assign_at pn (\<lambda>ce. ce\<lparr>provider := Some pn\<rparr>)
               (try_emplace pn ConditionEntry_default (storage w))"
  have 1: "store_inv ?w1" by (rule store_inv_emplace_provider [OF assms])
  from assms have s: "sorted_keys (storage w)" by (simp add: store_inv_iff)
  have 2: "sorted_keys ?xs" by (simp add: sorted_assign_at sorted_try_emplace s)
  from map_of_emplaced [OF assms, of pn b] obtain p where
    p: "map_of (providers ?w1) pn = Some p" "name p = pn" by auto
  have 3: "(\<exists>ce0. map_of (storage ?w1) k = Some ce0 \<and> provider ce0 = Some q) \<or>
           (\<exists>p. map_of (providers ?w1) q = Some p \<and> take (length (name p)) k = name p)"
    if "map_of ?xs k = Some ce" "provider ce = Some q" for k ce q
  proof (cases "k = pn")
    case True
    with that have "q = pn" by (auto simp: map_of_assign_at)
    with True p show ?thesis by auto
  next
    case False
    with that show ?thesis by (simp add: map_of_assign_at map_of_try_emplace [OF s])
  qed
  have "store_inv (?w1\<lparr>storage := ?xs\<rparr>)" by (rule store_inv_storage [OF 1 2 3])
  then show ?thesis by simp
qed

lemma store_inv_GetProviderPrefixed: "store_inv w \<Longrightarrow> store_inv (GetProviderPrefixed k w)"
  unfolding GetProviderPrefixed_def by (rule store_inv_register)

lemma store_inv_GetProviderNamed: "store_inv w \<Longrightarrow> store_inv (GetProviderNamed k w)"
  unfolding GetProviderNamed_def by (rule store_inv_register)

lemma store_inv_Clear: "store_inv (Clear w)"
  by (simp add: Clear_def store_inv_def provider_invariant_def sorted_keys_def)

lemma store_inv_ctor: "store_inv (ConditionsStore_ctor x)"
  by (simp add: ConditionsStore_ctor_def store_inv_def provider_invariant_def sorted_keys_def)

lemma store_inv_set_value:
  assumes "store_inv w"
  shows "store_inv (w\<lparr>storage := assign_at j (\<lambda>ce. ce\<lparr>value := v\<rparr>) (storage w)\<rparr>)"
    and "store_inv (w\<lparr>storage := assign_at k (\<lambda>ce. ce\<lparr>value := v\<rparr>)
                                   (try_emplace k ConditionEntry_default (storage w))\<rparr>)"
    and "store_inv (w\<lparr>storage := try_emplace k ConditionEntry_default (storage w)\<rparr>)"
    and "store_inv (w\<lparr>storage := erase_key k (storage w)\<rparr>)"
proof -
  from assms have s: "sorted_keys (storage w)" by (simp add: store_inv_iff)
  show "store_inv (w\<lparr>storage := assign_at j (\<lambda>ce. ce\<lparr>value := v\<rparr>) (storage w)\<rparr>)"
    by (rule store_inv_storage [OF assms])
       (auto simp: sorted_assign_at s map_of_assign_at split: if_splits)
  show "store_inv (w\<lparr>storage := assign_at k (\<lambda>ce. ce\<lparr>value := v\<rparr>)
                                   (try_emplace k ConditionEntry_default (storage w))\<rparr>)"
    by (rule store_inv_storage [OF assms])
       (auto simp: sorted_assign_at sorted_try_emplace s map_of_assign_at
          map_of_try_emplace [OF s] ConditionEntry_default_def split: if_splits)
  show "store_inv (w\<lparr>storage := try_emplace k ConditionEntry_default (storage w)\<rparr>)"
    by (rule store_inv_storage [OF assms])
       (auto simp: sorted_try_emplace s map_of_try_emplace [OF s] ConditionEntry_default_def
          split: if_splits)
  show "store_inv (w\<lparr>storage := erase_key k (storage w)\<rparr>)"
    by (rule store_inv_storage [OF assms])
       (auto simp: sorted_erase_key s map_of_erase_key split: if_splits)
qed

lemma store_inv_invoke:
  "store_inv w \<Longrightarrow> invoke f w = Inr (r, w') \<Longrightarrow> store_inv w'"
  by (auto dest!: invoke_Inr simp: store_inv_ext)

lemma store_inv_Set:
  assumes "store_inv w" "Set k v w = Inr (b, w')"
  shows "store_inv w'"
  using assms(2) store_inv_set_value(1,2) [OF assms(1)] store_inv_invoke [OF assms(1)]
  by (auto simp: Set_def split: sum.splits option.splits)

lemma store_inv_Erase:
  assumes "store_inv w" "Erase k w = Inr (b, w')"
  shows "store_inv w'"
  using assms store_inv_set_value(4) [OF assms(1)] store_inv_invoke [OF assms(1)]
  by (auto simp: Erase_def split: sum.splits option.splits)

lemma store_inv_Get:
  assumes "store_inv w" "Get k w = Inr (g, w')"
  shows "store_inv w'"
  using Get_Inr [OF assms(2)] assms(1) by (auto simp: store_inv_ext)

lemma store_inv_Add:
  assumes "store_inv w" "Add k v w = Inr (b, w')"
  shows "store_inv w'"
  using assms by (auto simp: Add_def split: sum.splits dest: store_inv_Get store_inv_Set)

lemma GetEntry_prefix_branch:
  assumes "sorted_keys (storage w)" "map_of (storage w) k = None"
    "GetEntry k w = Inr (Some (j, ce))"
  shows "\<exists>pn p. provider ce = Some pn \<and> map_of (providers w) pn = Some p \<and>
           isPrefixProvider p \<and> take (length (name p)) k = name p"
proof (cases "nearest k (storage w)")
  case None
  with assms(3) show ?thesis by (simp add: GetEntry_nearest)
next
  case (Some r)
  obtain i c where r: "r = (i, c)" by (cases r)
  from Some r have n: "nearest k (storage w) = Some (i, c)" by simp
  have "k \<noteq> i" using nearest_absent [OF assms(1,2) n] by simp
  with assms(3) n show ?thesis
    by (auto simp: GetEntry_nearest split: option.splits if_splits)
qed

lemma store_inv_subscript:
  assumes "store_inv w" "subscript k w = Inr w'"
  shows "store_inv w'"
proof (cases "map_of (storage w) k")
  case (Some ce)
  with assms show ?thesis by (simp add: subscript_def)
next
  case None
  from assms(1) have s: "sorted_keys (storage w)" by (simp add: store_inv_iff)
  show ?thesis
  proof (cases "GetEntry k w")
    case (Inl err)
    with assms(2) None show ?thesis by (simp add: subscript_def)
  next
    case (Inr r)
    show ?thesis
    proof (cases r)
      case None': None
      with assms(2) None Inr have "w' = w\<lparr>storage := try_emplace k ConditionEntry_default (storage w)\<rparr>"
        by (simp add: subscript_def)
      with store_inv_set_value(3) [OF assms(1)] show ?thesis by simp
    next
      case (Some jc)
      obtain j ceprov where jc: "jc = (j, ceprov)" by (cases jc)
      let ?xs = "assign_at k (\<lambda>ce. ce\<lparr>provider := provider ceprov, fullKey := k\<rparr>)
                   (try_emplace k ConditionEntry_default (storage w))"
      from assms(2) None Inr Some jc have w': "w' = w\<lparr>storage := ?xs\<rparr>"
        by (simp add: subscript_def)
      from GetEntry_prefix_branch [OF s None] Inr Some jc obtain pn p where
        p: "provider ceprov = Some pn" "map_of (providers w) pn = Some p"
           "take (length (name p)) k = name p" by blast
      have 2: "sorted_keys ?xs" by (simp add: sorted_assign_at sorted_try_emplace s)
      have 3: "(\<exists>ce0. map_of (storage w) i = Some ce0 \<and> provider ce0 = Some q) \<or>
           (\<exists>p. map_of (providers w) q = Some p \<and> take (length (name p)) i = name p)"
        if "map_of ?xs i = Some ce" "provider ce = Some q" for i ce q
      proof (cases "i = k")
        case True
        with that p(1) have "q = pn" by (auto simp: map_of_assign_at)
        with True p show ?thesis by auto
      next
        case False
        with that show ?thesis by (simp add: map_of_assign_at map_of_try_emplace [OF s])
      qed
      show ?thesis unfolding w' by (rule store_inv_storage [OF assms(1) 2 3])
    qed
  qed
qed

lemma store_inv_Load_children:
  "store_inv w \<Longrightarrow> Load_children cs w = Inr w' \<Longrightarrow> store_inv w'"
proof (induction cs arbitrary: w)
  case Nil
  then show ?case by simp
next
  case (Cons c cs)
  from Cons.prems(2) obtain b w1 where
    1: "Set (Token0 c) (if Size c \<ge> 2 then Value c 1 else 1) w = Inr (b, w1)"
    and 2: "Load_children cs w1 = Inr w'"
    by (auto split: sum.splits)
  from store_inv_Set [OF Cons.prems(1) 1] have "store_inv w1" .
  from Cons.IH [OF this 2] show ?case .
qed

lemma store_inv_on_provider:
  assumes "store_inv w" "\<And>p. name (f p) = name p"
  shows "store_inv (on_provider pn f w)"
proof -
  from assms(1) have inv:
    "sorted_keys (storage w)"
    "sorted_keys (providers w)"
    "\<forall>pn p. map_of (providers w) pn = Some p \<longrightarrow> name p = pn"
    "\<forall>k ce pn. map_of (storage w) k = Some ce \<longrightarrow> provider ce = Some pn \<longrightarrow>
        (\<exists>p. map_of (providers w) pn = Some p \<and> take (length (name p)) k = name p)"
    by (simp_all add: store_inv_iff)
  have 3: "\<forall>k ce q. map_of (storage w) k = Some ce \<longrightarrow> provider ce = Some q \<longrightarrow>
      (\<exists>p. map_of (assign_at pn f (providers w)) q = Some p \<and>
           take (length (name p)) k = name p)"
  proof (intro allI impI)
    fix k ce q assume "map_of (storage w) k = Some ce" "provider ce = Some q"
    with inv(4) obtain p where p: "map_of (providers w) q = Some p"
      "take (length (name p)) k = name p" by blast
    let ?p = "if q = pn then f p else p"
    from p(1) have "map_of (assign_at pn f (providers w)) q = Some ?p"
      by (auto simp: map_of_assign_at)
    moreover from p(2) have "take (length (name ?p)) k = name ?p" by (simp add: assms(2))
    ultimately show "\<exists>p. map_of (assign_at pn f (providers w)) q = Some p \<and>
           take (length (name p)) k = name p" by blast
  qed
  have 2: "\<forall>q p. map_of (assign_at pn f (providers w)) q = Some p \<longrightarrow> name p = q"
    using inv(3) assms(2) by (auto simp: map_of_assign_at split: if_splits)
  have 1: "sorted_keys (assign_at pn f (providers w))" by (simp add: sorted_assign_at inv(2))
  from inv(1) 1 2 3 show ?thesis by (simp add: store_inv_iff on_provider_def)
qed

text \<open>
  In a state that satisfies the invariant every provider reference leads to a provider:
  no operation ends in \<open>DanglingProvider\<close>.
\<close>

lemma GetEntry_Some_in_map:
  assumes "sorted_keys (storage w)" "GetEntry k w = Inr (Some (j, ce))"
  shows "map_of (storage w) j = Some ce"
proof (cases "nearest k (storage w)")
  case None
  with assms(2) show ?thesis by (simp add: GetEntry_nearest)
next
  case (Some r)
  obtain i c where r: "r = (i, c)" by (cases r)
  from Some r have n: "nearest k (storage w) = Some (i, c)" by simp
  from assms(2) n have "i = j \<and> c = ce"
    by (auto simp: GetEntry_nearest split: if_splits option.splits)
  with nearest_in_map [OF assms(1) n] show ?thesis by simp
qed

lemma GetEntry_not_dangling:
  assumes "store_inv w"
  shows "GetEntry k w \<noteq> Inl DanglingProvider"
proof (cases "nearest k (storage w)")
  case None
  then show ?thesis by (simp add: GetEntry_nearest)
next
  case (Some r)
  obtain i c where r: "r = (i, c)" by (cases r)
  from Some r have n: "nearest k (storage w) = Some (i, c)" by simp
  from assms have s: "sorted_keys (storage w)" by (simp add: store_inv_iff)
  have m: "map_of (storage w) i = Some c" by (rule nearest_in_map [OF s n])
  show ?thesis
  proof (cases "provider c")
    case None
    with n show ?thesis by (simp add: GetEntry_nearest)
  next
    case (Some pn)
    with assms m obtain p where "map_of (providers w) pn = Some p"
      unfolding store_inv_iff by blast
    with n Some show ?thesis by (simp add: GetEntry_nearest)
  qed
qed

lemma deref_registered:
  assumes "store_inv w" "GetEntry k w = Inr (Some (j, ce))" "provider ce = Some pn"
  shows "\<exists>p. map_of (providers w) pn = Some p \<and> name p = pn"
proof -
  from assms(1) have s: "sorted_keys (storage w)" by (simp add: store_inv_iff)
  from GetEntry_Some_in_map [OF s assms(2)] assms(1,3) show ?thesis
    unfolding store_inv_iff by blast
qed

lemma invoke_not_dangling: "invoke f w \<noteq> Inl DanglingProvider"
  by (simp add: invoke_def split: option.split prod.split)

lemma no_dangling:
  assumes "store_inv w"
  shows "Get k w \<noteq> Inl DanglingProvider" "Has k w \<noteq> Inl DanglingProvider"
    "Set k v w \<noteq> Inl DanglingProvider" "Erase k w \<noteq> Inl DanglingProvider"
    "subscript k w \<noteq> Inl DanglingProvider"
proof -
  have d: "\<forall>j ce pn. GetEntry k w = Inr (Some (j, ce)) \<longrightarrow> provider ce = Some pn \<longrightarrow>
      map_of (providers w) pn \<noteq> None"
    using deref_registered [OF assms] by fastforce
  note g = GetEntry_not_dangling [OF assms, of k]
  show "Get k w \<noteq> Inl DanglingProvider"
    using g d by (auto simp: Get_def invoke_not_dangling split: sum.splits option.splits)
  show "Has k w \<noteq> Inl DanglingProvider"
    using g d by (auto simp: Has_def invoke_not_dangling split: sum.splits option.splits)
  show "Set k v w \<noteq> Inl DanglingProvider"
    using g d by (auto simp: Set_def invoke_not_dangling split: sum.splits option.splits)
  show "Erase k w \<noteq> Inl DanglingProvider"
    using g d by (auto simp: Erase_def invoke_not_dangling split: sum.splits option.splits)
  show "subscript k w \<noteq> Inl DanglingProvider"
    using g by (auto simp: subscript_def split: sum.splits option.splits)
qed

section \<open>The traversal of the primary conditions\<close>

lemma skip_providers_spec:
  "it \<le> length xs \<Longrightarrow>
     \<exists>j. skip_providers xs it (length xs) = Some j \<and> it \<le> j \<and> j \<le> length xs \<and>
         (j < length xs \<longrightarrow> primary (xs ! j)) \<and>
         filter primary (drop j xs) = filter primary (drop it xs)"
proof (induction "length xs - it" arbitrary: it)
  case 0
  then have "it = length xs" by simp
  then show ?case by (simp add: skip_providers.simps)
next
  case (Suc n)
  then have lt: "it < length xs" by simp
  show ?case
  proof (cases "primary (xs ! it)")
    case True
    with lt have "skip_providers xs it (length xs) = Some it"
      by (subst skip_providers.simps) (simp add: primary_def)
    with lt True show ?thesis by simp
  next
    case False
    with lt have eq: "skip_providers xs it (length xs) = skip_providers xs (Suc it) (length xs)"
      by (subst skip_providers.simps) (simp add: primary_def)
    from Suc.hyps(2) have "n = length xs - Suc it" by simp
    from Suc.hyps(1) [OF this] lt obtain j where
      j: "skip_providers xs (Suc it) (length xs) = Some j" "Suc it \<le> j" "j \<le> length xs"
         "j < length xs \<longrightarrow> primary (xs ! j)"
         "filter primary (drop j xs) = filter primary (drop (Suc it) xs)"
      by auto
    have "drop it xs = xs ! it # drop (Suc it) xs"
      using lt by (simp add: Cons_nth_drop_Suc)
    with False have "filter primary (drop it xs) = filter primary (drop (Suc it) xs)" by simp
    with j eq show ?thesis by auto
  qed
qed

lemma MoveToValueCondition_settled:
  assumes "condMapEnd it = length xs" "condMapIt it \<le> length xs"
  shows "\<exists>it'. MoveToValueCondition xs it = Some it' \<and> settled xs it' \<and>
           filter primary (drop (condMapIt it') xs) = filter primary (drop (condMapIt it) xs)"
proof -
  from skip_providers_spec [OF assms(2)] obtain j where
    j: "skip_providers xs (condMapIt it) (length xs) = Some j" "j \<le> length xs"
       "j < length xs \<longrightarrow> primary (xs ! j)"
       "filter primary (drop j xs) = filter primary (drop (condMapIt it) xs)"
    by auto
  show ?thesis
  proof (cases "j = length xs")
    case True
    with j assms have "MoveToValueCondition xs it = Some (it\<lparr>condMapIt := j\<rparr>)"
      by (simp add: MoveToValueCondition_def)
    with j assms True show ?thesis by (simp add: settled_def)
  next
    case False
    with j assms have
      "MoveToValueCondition xs it =
         Some (it\<lparr>condMapIt := j, itVal := (fst (xs ! j), value (snd (xs ! j)))\<rparr>)"
      by (simp add: MoveToValueCondition_def)
    with j assms False show ?thesis by (simp add: settled_def pair_of_def)
  qed
qed

lemma PrimariesEnd_eq:
  "PrimariesEnd w =
     Some \<lparr>condMapIt = length (storage w), condMapEnd = length (storage w), itVal = ([], 0)\<rparr>"
  by (simp add: PrimariesEnd_def PrimariesIterator_ctor_def MoveToValueCondition_def
      skip_providers.simps)

lemma PrimariesBegin_settled:
  "\<exists>b. PrimariesBegin w = Some b \<and> settled (storage w) b \<and>
       filter primary (drop (condMapIt b) (storage w)) = filter primary (storage w)"
  using MoveToValueCondition_settled
    [of "\<lparr>condMapIt = 0, condMapEnd = length (storage w), itVal = ([], 0)\<rparr>" "storage w"]
  by (simp add: PrimariesBegin_def PrimariesIterator_ctor_def)

lemma for_primaries_settled:
  "settled (storage w) it \<Longrightarrow>
     for_primaries w body it acc =
       Some (fold body (map pair_of (filter primary (drop (condMapIt it) (storage w)))) acc)"
proof (induction "length (storage w) - condMapIt it" arbitrary: it acc rule: less_induct)
  case less
  let ?xs = "storage w"
  let ?i = "condMapIt it"
  show ?case
  proof (cases "?i = length ?xs")
    case True
    then show ?thesis
      by (subst for_primaries.simps) (simp add: PrimariesEnd_eq operator_neq_def)
  next
    case False
    with less.prems have lt: "?i < length ?xs" by (simp add: settled_def)
    with less.prems have cur: "primary (?xs ! ?i)" "itVal it = pair_of (?xs ! ?i)"
      and e: "condMapEnd it = length ?xs"
      by (simp_all add: settled_def)
    from MoveToValueCondition_settled [of "it\<lparr>condMapIt := Suc ?i\<rparr>" ?xs] e lt
    obtain it' where it': "MoveToValueCondition ?xs (it\<lparr>condMapIt := Suc ?i\<rparr>) = Some it'"
      "settled ?xs it'"
      "filter primary (drop (condMapIt it') ?xs) = filter primary (drop (Suc ?i) ?xs)"
      by auto
    from it'(1) lt have inc: "operator_inc ?xs it = Some it'" by (simp add: operator_inc_def)
    from operator_inc_gt [OF inc] have "length ?xs - condMapIt it' < length ?xs - ?i" by arith
    from less.hyps [OF this it'(2)]
    have ih: "for_primaries w body it' (body (operator_star it) acc) =
        Some (fold body (map pair_of (filter primary (drop (condMapIt it') ?xs)))
                (body (operator_star it) acc))" .
    have dr: "drop ?i ?xs = ?xs ! ?i # drop (Suc ?i) ?xs"
      using lt by (simp add: Cons_nth_drop_Suc)
    have "for_primaries w body it acc = for_primaries w body it' (body (operator_star it) acc)"
      using lt inc by (subst for_primaries.simps) (simp add: PrimariesEnd_eq operator_neq_def)
    also note ih
    finally show ?thesis
      using cur it'(3) by (simp add: dr operator_star_def)
  qed
qed

lemma fold_snoc: "fold (\<lambda>x acc. acc @ [x]) ys acc = acc @ ys"
  by (induction ys arbitrary: acc) auto

lemma Primaries_eq:
  "Primaries w = Some (map pair_of (filter primary (storage w)))"
proof -
  from PrimariesBegin_settled [of w] obtain b where
    b: "PrimariesBegin w = Some b" "settled (storage w) b"
       "filter primary (drop (condMapIt b) (storage w)) = filter primary (storage w)"
    by auto
  from for_primaries_settled [OF b(2), of "\<lambda>kv acc. acc @ [kv]" "[]"] b(1,3) show ?thesis
    by (simp add: Primaries_def fold_snoc)
qed

lemma sorted_keys_filter: "sorted_keys xs \<Longrightarrow> sorted_wrt (<) (map fst (map pair_of (filter P xs)))"
proof -
  assume "sorted_keys xs"
  have m: "map fst (map pair_of (filter P xs)) = map fst (filter P xs)"
    by (simp add: pair_of_def comp_def)
  have "sorted_wrt (<) (map fst (filter P xs))" if "sorted_wrt (\<lambda>a b. fst a < fst b) (filter P xs)"
    using that by (simp add: sorted_wrt_map)
  note fin = this
  from \<open>sorted_keys xs\<close> have "sorted_wrt (\<lambda>a b. fst a < fst b) xs"
    by (simp add: sorted_keys_def sorted_wrt_map)
  then have "sorted_wrt (\<lambda>a b. fst a < fst b) (filter P xs)" by (rule sorted_wrt_filter)
  from fin [OF this] show ?thesis by (simp only: m)
qed

section \<open>Stores of primary conditions, saving and loading\<close>

lemma primary_nearest:
  assumes "sorted_keys (storage w)" "list_all primary (storage w)"
    "nearest k (storage w) = Some (j, ce)"
  shows "provider ce = None"
proof -
  from nearest_Some [OF assms(1,3)] have "(j, ce) \<in> set (storage w)" by simp
  with assms(2) show ?thesis by (auto simp: list_all_iff primary_def)
qed

lemma GetEntry_primary:
  assumes "sorted_keys (storage w)" "list_all primary (storage w)"
  shows "GetEntry k w = Inr (map_option (\<lambda>ce. (k, ce)) (map_of (storage w) k))"
proof (cases "map_of (storage w) k")
  case (Some ce)
  with GetEntry_exact [OF assms(1) Some] show ?thesis by simp
next
  case None
  show ?thesis
  proof (cases "nearest k (storage w)")
    case None': None
    with None show ?thesis by (simp add: GetEntry_nearest)
  next
    case (Some r)
    obtain j ce where r: "r = (j, ce)" by (cases r)
    from Some r have n: "nearest k (storage w) = Some (j, ce)" by simp
    from primary_nearest [OF assms n] nearest_absent [OF assms(1) None n] n None
    show ?thesis by (simp add: GetEntry_nearest)
  qed
qed

lemma Get_primary:
  assumes "sorted_keys (storage w)" "list_all primary (storage w)"
  shows "Get k w = Inr (case value_at w k of None \<Rightarrow> 0 | Some v \<Rightarrow> v, w)"
    and "Has k w = Inr (value_at w k \<noteq> None, w)"
proof -
  have p: "provider ce = None" if "map_of (storage w) k = Some ce" for ce
    using assms that by (auto simp: list_all_map_of primary_def)
  show "Get k w = Inr (case value_at w k of None \<Rightarrow> 0 | Some v \<Rightarrow> v, w)"
    using p by (cases "map_of (storage w) k")
      (simp_all add: Get_def GetEntry_primary [OF assms] value_at_def)
  show "Has k w = Inr (value_at w k \<noteq> None, w)"
    using p by (cases "map_of (storage w) k")
      (simp_all add: Has_def GetEntry_primary [OF assms] value_at_def)
qed

lemma Set_primary:
  assumes "sorted_keys (storage w)" "list_all primary (storage w)"
  shows "\<exists>w'. Set k v w = Inr (True, w') \<and> sorted_keys (storage w') \<and>
           list_all primary (storage w') \<and> providers w' = providers w \<and> ext w' = ext w \<and>
           (\<forall>j. value_at w' j = (if j = k then Some v else value_at w j))"
proof (cases "map_of (storage w) k")
  case None
  let ?xs = "assign_at k (\<lambda>ce. ce\<lparr>value := v\<rparr>) (try_emplace k ConditionEntry_default (storage w))"
  have 1: "Set k v w = Inr (True, w\<lparr>storage := ?xs\<rparr>)"
    by (simp add: Set_def GetEntry_primary [OF assms] None)
  have 2: "sorted_keys ?xs" by (simp add: sorted_assign_at sorted_try_emplace assms(1))
  have m: "map_of ?xs j =
      (if j = k then Some (ConditionEntry_default\<lparr>value := v\<rparr>) else map_of (storage w) j)" for j
    by (simp add: map_of_assign_at map_of_try_emplace [OF assms(1)] None)
  have pd: "provider (ConditionEntry_default\<lparr>value := v\<rparr>) = None"
    by (simp add: ConditionEntry_default_def)
  have 3: "list_all primary ?xs"
    unfolding list_all_map_of [OF 2]
    using assms(2) [unfolded list_all_map_of [OF assms(1)]]
    by (auto simp: m primary_def pd split: if_splits)
  have 4: "\<forall>j. value_at (w\<lparr>storage := ?xs\<rparr>) j = (if j = k then Some v else value_at w j)"
    by (simp add: value_at_def m)
  from 1 2 3 4 show ?thesis by auto
next
  case (Some ce)
  from assms Some have p: "provider ce = None" by (auto simp: list_all_map_of primary_def)
  let ?xs = "assign_at k (\<lambda>ce. ce\<lparr>value := v\<rparr>) (storage w)"
  have 1: "Set k v w = Inr (True, w\<lparr>storage := ?xs\<rparr>)"
    by (simp add: Set_def GetEntry_primary [OF assms] Some p)
  have 2: "sorted_keys ?xs" by (simp add: sorted_assign_at assms(1))
  have m: "map_of ?xs j = (if j = k then Some (ce\<lparr>value := v\<rparr>) else map_of (storage w) j)" for j
    by (simp add: map_of_assign_at Some)
  have 3: "list_all primary ?xs"
    unfolding list_all_map_of [OF 2]
    using assms(2) [unfolded list_all_map_of [OF assms(1)]] p
    by (auto simp: m primary_def split: if_splits)
  have 4: "\<forall>j. value_at (w\<lparr>storage := ?xs\<rparr>) j = (if j = k then Some v else value_at w j)"
    by (simp add: value_at_def m)
  from 1 2 3 4 show ?thesis by auto
qed

lemma node_of_value:
  "(if Size (node_of kv) \<ge> 2 then Value (node_of kv) 1 else 1) = snd kv"
  by (simp add: node_of_def Size_def Value_def)

lemma Load_children_primary:
  "sorted_keys (storage w) \<Longrightarrow> list_all primary (storage w) \<Longrightarrow> distinct (map fst kvs) \<Longrightarrow>
     \<exists>w'. Load_children (map node_of kvs) w = Inr w' \<and> sorted_keys (storage w') \<and>
          list_all primary (storage w') \<and> providers w' = providers w \<and> ext w' = ext w \<and>
          (\<forall>j. value_at w' j = (case map_of kvs j of Some v \<Rightarrow> Some v | None \<Rightarrow> value_at w j))"
proof (induction kvs arbitrary: w)
  case Nil
  then show ?case by simp
next
  case (Cons kv kvs)
  obtain k v where kv: "kv = (k, v)" by (cases kv)
  from Set_primary [OF Cons.prems(1,2), of k v] obtain w1 where
    w1: "Set k v w = Inr (True, w1)" "sorted_keys (storage w1)" "list_all primary (storage w1)"
        "providers w1 = providers w" "ext w1 = ext w"
        "\<forall>j. value_at w1 j = (if j = k then Some v else value_at w j)"
    by blast
  from Cons.prems(3) have d: "distinct (map fst kvs)" and nk: "k \<notin> fst ` set kvs"
    by (simp_all add: kv)
  from Cons.IH [OF w1(2,3) d] obtain w' where
    w': "Load_children (map node_of kvs) w1 = Inr w'" "sorted_keys (storage w')"
        "list_all primary (storage w')" "providers w' = providers w1" "ext w' = ext w1"
        "\<forall>j. value_at w' j = (case map_of kvs j of Some v \<Rightarrow> Some v | None \<Rightarrow> value_at w1 j)"
    by blast
  have "Token0 (node_of kv) = k" by (simp add: node_of_def kv)
  with w1(1) w'(1) have 1: "Load_children (map node_of (kv # kvs)) w = Inr w'"
    by (simp add: node_of_value kv)
  from nk have "map_of kvs k = None" by (simp add: map_of_eq_None_iff)
  with w'(6) w1(6) have
    "\<forall>j. value_at w' j = (case map_of (kv # kvs) j of Some v \<Rightarrow> Some v | None \<Rightarrow> value_at w j)"
    by (auto simp: kv split: option.splits)
  with 1 w'(2,3,4,5) w1(4,5) show ?case by auto
qed

lemma fold_Save_body:
  "written (fold Save_body kvs out) =
     written out @ map (line_of (indent out)) (filter (\<lambda>kv. snd kv \<noteq> 0) kvs) \<and>
   indent (fold Save_body kvs out) = indent out"
proof (induction kvs arbitrary: out)
  case Nil
  show ?case by simp
next
  case (Cons kv kvs)
  have "written (Save_body kv out) =
      written out @ map (line_of (indent out)) (filter (\<lambda>kv. snd kv \<noteq> 0) [kv])"
    and "indent (Save_body kv out) = indent out"
    by (simp_all add: Save_body_def Write_def line_of_def)
  with Cons.IH [of "Save_body kv out"] show ?case by simp
qed

lemma Begin_end_iff:
  assumes "PrimariesBegin w = Some b"
  shows "condMapIt b = length (storage w) \<longleftrightarrow> filter primary (storage w) = []"
proof -
  from PrimariesBegin_settled [of w] assms have
    s: "settled (storage w) b" and
    f: "filter primary (drop (condMapIt b) (storage w)) = filter primary (storage w)"
    by auto
  show ?thesis
  proof (cases "condMapIt b = length (storage w)")
    case True
    with f show ?thesis by simp
  next
    case False
    with s have lt: "condMapIt b < length (storage w)" and p: "primary (storage w ! condMapIt b)"
      by (simp_all add: settled_def)
    have "drop (condMapIt b) (storage w) =
        storage w ! condMapIt b # drop (Suc (condMapIt b)) (storage w)"
      using lt by (simp add: Cons_nth_drop_Suc)
    with p have "filter primary (drop (condMapIt b) (storage w)) \<noteq> []" by simp
    with f False show ?thesis by simp
  qed
qed

lemma Save_eq:
  "Save w out =
     (if filter primary (storage w) = [] then Some out
      else Some (EndChild (fold Save_body (map pair_of (filter primary (storage w)))
                   (BeginChild (Write ''conditions'' [] out)))))"
proof -
  from PrimariesBegin_settled [of w] obtain b where
    b: "PrimariesBegin w = Some b" "settled (storage w) b"
       "filter primary (drop (condMapIt b) (storage w)) = filter primary (storage w)"
    by auto
  from for_primaries_settled [OF b(2), of Save_body] b(3)
  have loop: "for_primaries w Save_body b acc =
      Some (fold Save_body (map pair_of (filter primary (storage w))) acc)" for acc
    by simp
  show ?thesis
    using Begin_end_iff [OF b(1)]
    by (simp add: Save_def b(1) PrimariesEnd_eq operator_neq_def loop)
qed

lemma written_Save:
  assumes "filter primary (storage w) \<noteq> []"
  shows "\<exists>out. Save w DataWriter_ctor = Some out \<and>
     written out = (0, ''conditions'', []) #
       map (line_of 1) (filter (\<lambda>kv. snd kv \<noteq> 0) (map pair_of (filter primary (storage w))))"
  using assms fold_Save_body
    [of "map pair_of (filter primary (storage w))"
        "BeginChild (Write ''conditions'' [] DataWriter_ctor)"]
  by (simp add: Save_eq EndChild_def BeginChild_def Write_def DataWriter_ctor_def)

lemma takeWhile_lines:
  "0 < d \<Longrightarrow> takeWhile (\<lambda>(i, k, ns). 0 < i) (map (line_of d) kvs) = map (line_of d) kvs"
  by (induction kvs) (simp_all add: line_of_def)

lemma children_lines:
  "map (\<lambda>(i, k, ns). DataNode k ns []) (map (line_of d) kvs) = map node_of kvs"
  by (induction kvs) (simp_all add: line_of_def node_of_def)

lemma read_back_lines:
  "written out = (0, key, nums) # map (line_of 1) kvs \<Longrightarrow>
     read_back out = Some (DataNode key nums (map node_of kvs))"
proof -
  assume w: "written out = (0, key, nums) # map (line_of 1) kvs"
  have tw: "takeWhile (\<lambda>(i, k, ns). 0 < i) (map (line_of 1) kvs) = map (line_of 1) kvs"
    by (rule takeWhile_lines) simp
  show ?thesis
    unfolding read_back_def w by (simp only: list.case prod.case tw children_lines)
qed

lemma map_of_saved:
  "sorted_keys xs \<Longrightarrow>
     map_of (filter (\<lambda>kv. snd kv \<noteq> 0) (map pair_of xs)) k =
       (case map_of xs k of
          None \<Rightarrow> None
        | Some ce \<Rightarrow> if value ce \<noteq> 0 then Some (value ce) else None)"
proof (induction xs arbitrary: k)
  case Nil
  show ?case by simp
next
  case (Cons a xs)
  obtain k0 c0 where a: "a = (k0, c0)" by (cases a)
  from Cons.prems have lt: "\<forall>k'\<in>fst ` set xs. k0 < k'" and s: "sorted_keys xs"
    by (simp_all add: a sorted_keys_Cons)
  from lt have "k0 \<notin> fst ` set xs" by auto
  then have "map_of xs k0 = None" by (simp add: map_of_eq_None_iff)
  with Cons.IH [OF s] show ?case by (simp add: a pair_of_def)
qed

lemma distinct_saved:
  assumes "sorted_keys xs"
  shows "distinct (map fst (filter (\<lambda>kv. snd kv \<noteq> 0) (map pair_of xs)))"
proof -
  from assms have "distinct (map fst xs)"
    unfolding sorted_keys_def by (simp add: strict_sorted_iff)
  moreover have "map fst (map pair_of xs) = map fst xs"
    by (induction xs) (simp_all add: pair_of_def)
  ultimately have "distinct (map fst (map pair_of xs))" by (simp only:)
  then show ?thesis by (rule distinct_map_filter)
qed

section \<open>Resolution through a prefix provider\<close>

lemma starts_with_le: "take (length p) k = p \<Longrightarrow> p \<le> (k :: string)"
proof (induction p arbitrary: k)
  case Nil
  show ?case by simp
next
  case (Cons c p)
  then obtain k' where k: "k = c # k'" and t: "take (length p) k' = p"
    by (cases k) auto
  from Cons.IH [OF t] show ?case by (simp add: k)
qed

lemma nearest_exists:
  assumes "sorted_keys xs" "map_of xs j = Some v" "j \<le> k"
  shows "\<exists>i u. nearest k xs = Some (i, u) \<and> j \<le> i \<and> i \<le> k \<and> map_of xs i = Some u"
proof (cases "nearest k xs")
  case None
  with assms(1) have "\<forall>i\<in>fst ` set xs. k < i" by (simp add: nearest_None)
  moreover from assms(2) have "j \<in> fst ` set xs" by (rule map_of_Some_key)
  ultimately show ?thesis using assms(3) by auto
next
  case (Some r)
  obtain i u where r: "r = (i, u)" by (cases r)
  from Some r have n: "nearest k xs = Some (i, u)" by simp
  from nearest_Some [OF assms(1) n]
  have 1: "i \<le> k" "\<forall>k'\<in>fst ` set xs. k' \<le> k \<longrightarrow> k' \<le> i" by auto
  from assms(2) have "j \<in> fst ` set xs" by (rule map_of_Some_key)
  with 1(2) assms(3) have "j \<le> i" by blast
  with n 1(1) nearest_in_map [OF assms(1) n] show ?thesis by simp
qed


lemma GetProviderPrefixed_state:
  assumes "store_inv w" "map_of (providers w) p = None"
  shows "\<exists>ep. map_of (storage (GetProviderPrefixed p w)) p = Some ep \<and> provider ep = Some p \<and>
           map_of (providers (GetProviderPrefixed p w)) p = Some (DerivedProvider_ctor p True)"
proof -
  from assms(1) have s: "sorted_keys (storage w)" and sp: "sorted_keys (providers w)"
    by (simp_all add: store_inv_iff)
  show ?thesis
    by (cases "map_of (storage w) p")
       (simp_all add: GetProviderPrefixed_def map_of_assign_at map_of_try_emplace [OF s]
          map_of_try_emplace [OF sp] assms(2))
qed




lemma shadowed_store_eq:
  "shadowed_store =
     \<lparr>storage = [(''a'', \<lparr>value = 0, provider = Some ''a'', fullKey = []\<rparr>),
                 (''ab'', \<lparr>value = 5, provider = None, fullKey = []\<rparr>)],
      providers = [(''a'',
         \<lparr>name = ''a'', isPrefixProvider = True,
          getFunction = Some (\<lambda>k x. (x, x)), hasFunction = Some (\<lambda>k x. (True, x)),
          setFunction = Some (\<lambda>k v x. (True, v)), eraseFunction = Some (\<lambda>k x. (False, x))\<rparr>)],
      ext = 7\<rparr>"
  by (simp add: shadowed_store_def primed_store_def GetProviderPrefixed_def assign_at_def
      ConditionEntry_default_def DerivedProvider_ctor_def on_provider_def counter_callbacks_def
      SetGetFunction_def SetHasFunction_def SetSetFunction_def SetEraseFunction_def)

section \<open>Registered prefix providers and the nearest entry\<close>

lemma registered_prefixD:
  assumes "registered_prefix w p"
  obtains P ep where "map_of (providers w) p = Some P" "isPrefixProvider P"
    "map_of (storage w) p = Some ep" "provider ep = Some p"
  using assms by (auto simp: registered_prefix_def split: option.splits)

lemma registered_prefixI:
  "map_of (providers w) p = Some P \<Longrightarrow> isPrefixProvider P \<Longrightarrow>
   map_of (storage w) p = Some ep \<Longrightarrow> provider ep = Some p \<Longrightarrow> registered_prefix w p"
  by (simp add: registered_prefix_def)

lemma GetEntry_is_nearest:
  assumes "nearest k (storage w) = Some (j, ce)" "GetEntry k w = Inr (Some (j', ce'))"
  shows "j' = j \<and> ce' = ce"
  using assms by (auto simp: GetEntry_nearest split: if_splits option.splits)

lemma nearest_resolution:
  assumes inv: "store_inv w"
    and reg: "map_of (providers w) p = Some P" "isPrefixProvider P"
    and ent: "map_of (storage w) p = Some ep"
    and pre: "take (length p) k = p"
  shows "\<exists>j ce. nearest k (storage w) = Some (j, ce) \<and> map_of (storage w) j = Some ce \<and>
           p \<le> j \<and> j \<le> k \<and>
           (\<forall>i ci. map_of (storage w) i = Some ci \<longrightarrow> i \<le> k \<longrightarrow> i \<le> j) \<and>
           (j = k \<longrightarrow> GetEntry k w = Inr (Some (k, ce))) \<and>
           (j \<noteq> k \<longrightarrow> provider ce = Some p \<longrightarrow>
              GetEntry k w = Inr (Some (j, ce)) \<and>
              Get k w = invoke (map_option (\<lambda>g. g k) (getFunction P)) w \<and>
              Has k w = invoke (map_option (\<lambda>h. h k) (hasFunction P)) w) \<and>
           (j \<noteq> k \<longrightarrow> provider ce \<noteq> Some p \<longrightarrow>
              (\<forall>j' ce'. GetEntry k w = Inr (Some (j', ce')) \<longrightarrow> provider ce' \<noteq> Some p)) \<and>
           (j \<noteq> k \<longrightarrow> provider ce = None \<longrightarrow>
              GetEntry k w = Inr None \<and> Get k w = Inr (0, w) \<and> Has k w = Inr (False, w))"
proof -
  from inv have s: "sorted_keys (storage w)" by (simp add: store_inv_iff)
  from inv reg(1) have nP: "name P = p" by (simp add: store_inv_iff)
  from nearest_exists [OF s ent starts_with_le [OF pre]] obtain j ce where
    n: "nearest k (storage w) = Some (j, ce)" and pj: "p \<le> j" and jk: "j \<le> k"
    and m: "map_of (storage w) j = Some ce"
    by blast
  from nearest_Some [OF s n] have "\<forall>k'\<in>fst ` set (storage w). k' \<le> k \<longrightarrow> k' \<le> j" by simp
  then have great: "\<forall>i ci. map_of (storage w) i = Some ci \<longrightarrow> i \<le> k \<longrightarrow> i \<le> j"
    using map_of_Some_key by fastforce
  have 1: "GetEntry k w = Inr (Some (k, ce))" if "j = k"
    using n that by (simp add: GetEntry_nearest)
  have 2: "GetEntry k w = Inr (Some (j, ce)) \<and>
      Get k w = invoke (map_option (\<lambda>g. g k) (getFunction P)) w \<and>
      Has k w = invoke (map_option (\<lambda>h. h k) (hasFunction P)) w"
    if "j \<noteq> k" "provider ce = Some p"
  proof -
    have g: "GetEntry k w = Inr (Some (j, ce))"
      using n that reg nP pre by (simp add: GetEntry_nearest)
    then show ?thesis using that(2) reg(1) by (simp add: Get_def Has_def)
  qed
  have 3: "\<forall>j' ce'. GetEntry k w = Inr (Some (j', ce')) \<longrightarrow> provider ce' \<noteq> Some p"
    if "provider ce \<noteq> Some p"
    using GetEntry_is_nearest [OF n] that by blast
  have 4: "GetEntry k w = Inr None \<and> Get k w = Inr (0, w) \<and> Has k w = Inr (False, w)"
    if "j \<noteq> k" "provider ce = None"
  proof -
    have "GetEntry k w = Inr None" using n that by (simp add: GetEntry_nearest)
    then show ?thesis by (simp add: Get_def Has_def)
  qed
  show ?thesis
    by (rule exI [of _ j], rule exI [of _ ce]) (use n m pj jk great 1 2 3 4 in blast)
qed

lemma register_maps:
  assumes "store_inv w"
  shows "map_of (try_emplace q (DerivedProvider_ctor q b) (providers w)) i =
           (if i = q \<and> map_of (providers w) q = None then Some (DerivedProvider_ctor q b)
            else map_of (providers w) i)"
    and "map_of (assign_at q (\<lambda>ce. ce\<lparr>provider := Some q\<rparr>)
                   (try_emplace q ConditionEntry_default (storage w))) i =
           (if i = q
            then Some ((case map_of (storage w) q of None \<Rightarrow> ConditionEntry_default
                        | Some e \<Rightarrow> e)\<lparr>provider := Some q\<rparr>)
            else map_of (storage w) i)"
proof -
  from assms(1) have s: "sorted_keys (storage w)" and sp: "sorted_keys (providers w)"
    by (simp_all add: store_inv_iff)
  show "map_of (try_emplace q (DerivedProvider_ctor q b) (providers w)) i =
           (if i = q \<and> map_of (providers w) q = None then Some (DerivedProvider_ctor q b)
            else map_of (providers w) i)"
    by (simp add: map_of_try_emplace [OF sp])
  show "map_of (assign_at q (\<lambda>ce. ce\<lparr>provider := Some q\<rparr>)
                   (try_emplace q ConditionEntry_default (storage w))) i =
           (if i = q
            then Some ((case map_of (storage w) q of None \<Rightarrow> ConditionEntry_default
                        | Some e \<Rightarrow> e)\<lparr>provider := Some q\<rparr>)
            else map_of (storage w) i)"
    by (cases "map_of (storage w) q")
       (simp_all add: map_of_assign_at map_of_try_emplace [OF s])
qed

lemma registered_prefix_iff:
  "registered_prefix w p \<longleftrightarrow>
     (\<exists>P ep. map_of (providers w) p = Some P \<and> isPrefixProvider P \<and>
        map_of (storage w) p = Some ep \<and> provider ep = Some p)"
  by (auto simp: registered_prefix_def split: option.splits)

lemma isPrefix_ctor: "isPrefixProvider (DerivedProvider_ctor q b) = b"
  by (simp add: DerivedProvider_ctor_def)

lemma registered_prefix_established:
  assumes "store_inv w" "map_of (providers w) p = None"
  shows "registered_prefix (GetProviderPrefixed p w) p"
  unfolding GetProviderPrefixed_def registered_prefix_iff
  by (simp add: register_maps [OF assms(1)] assms(2) isPrefix_ctor)

lemma GetProviderPrefixed_existing:
  assumes "store_inv w" "map_of (providers w) p = Some Q"
  shows "map_of (providers (GetProviderPrefixed p w)) p = Some Q"
  unfolding GetProviderPrefixed_def by (simp add: register_maps [OF assms(1)] assms(2))

lemma registered_prefix_register:
  assumes "store_inv w" "registered_prefix w p"
  shows "registered_prefix (GetProviderPrefixed q w) p"
    and "registered_prefix (GetProviderNamed q w) p"
proof -
  from assms(2) obtain P ep where r: "map_of (providers w) p = Some P" "isPrefixProvider P"
    "map_of (storage w) p = Some ep" "provider ep = Some p"
    by (rule registered_prefixD)
  show "registered_prefix (GetProviderPrefixed q w) p"
    unfolding GetProviderPrefixed_def registered_prefix_iff
    using r by (auto simp: register_maps [OF assms(1)])
  show "registered_prefix (GetProviderNamed q w) p"
    unfolding GetProviderNamed_def registered_prefix_iff
    using r by (auto simp: register_maps [OF assms(1)])
qed

lemma registered_prefix_storage:
  assumes "registered_prefix w p" "map_of xs' p = map_of (storage w) p"
  shows "registered_prefix (w\<lparr>storage := xs'\<rparr>) p"
  using assms by (simp add: registered_prefix_iff)

lemma registered_prefix_ext: "registered_prefix (w\<lparr>ext := x\<rparr>) p = registered_prefix w p"
  by (simp add: registered_prefix_iff)

lemma registered_prefix_invoke:
  "registered_prefix w p \<Longrightarrow> invoke f w = Inr (r, w') \<Longrightarrow> registered_prefix w' p"
  by (auto dest!: invoke_Inr simp: registered_prefix_ext)

lemma registered_prefix_Set:
  assumes inv: "store_inv w" and reg: "registered_prefix w p" and set: "Set k v w = Inr (b, w')"
  shows "registered_prefix w' p"
proof -
  from inv have s: "sorted_keys (storage w)" by (simp add: store_inv_iff)
  from reg obtain P ep where r: "map_of (storage w) p = Some ep" "provider ep = Some p"
    by (rule registered_prefixD)
  show ?thesis
  proof (cases "GetEntry k w")
    case (Inl err)
    with set show ?thesis by (simp add: Set_def)
  next
    case (Inr res)
    show ?thesis
    proof (cases res)
      case None
      with Inr GetEntry_None_absent [OF s] r have kp: "k \<noteq> p" by auto
      from set Inr None have w': "w' = w\<lparr>storage := assign_at k (\<lambda>ce. ce\<lparr>value := v\<rparr>)
                                     (try_emplace k ConditionEntry_default (storage w))\<rparr>"
        by (simp add: Set_def)
      show ?thesis unfolding w'
        by (rule registered_prefix_storage [OF reg])
           (use kp in \<open>simp add: map_of_assign_at map_of_try_emplace [OF s]\<close>)
    next
      case (Some jc)
      obtain j ce where jc: "jc = (j, ce)" by (cases jc)
      show ?thesis
      proof (cases "provider ce")
        case None
        from GetEntry_inline [OF s _ None] Inr Some jc
        have j: "j = k" and m: "map_of (storage w) k = Some ce" by simp_all
        from m None r have kp: "k \<noteq> p" by auto
        from set Inr Some jc None j
        have w': "w' = w\<lparr>storage := assign_at k (\<lambda>ce. ce\<lparr>value := v\<rparr>) (storage w)\<rparr>"
          by (simp add: Set_def)
        show ?thesis unfolding w'
          by (rule registered_prefix_storage [OF reg]) (use kp in \<open>simp add: map_of_assign_at\<close>)
      next
        case (Some pn)
        with set Inr \<open>res = Some jc\<close> jc show ?thesis
          by (auto simp: Set_def split: option.splits dest: registered_prefix_invoke [OF reg])
      qed
    qed
  qed
qed

lemma registered_prefix_Erase:
  assumes inv: "store_inv w" and reg: "registered_prefix w p" and er: "Erase k w = Inr (b, w')"
  shows "registered_prefix w' p"
proof -
  from inv have s: "sorted_keys (storage w)" by (simp add: store_inv_iff)
  from reg obtain P ep where r: "map_of (storage w) p = Some ep" "provider ep = Some p"
    by (rule registered_prefixD)
  show ?thesis
  proof (cases "GetEntry k w")
    case (Inl err)
    with er show ?thesis by (simp add: Erase_def)
  next
    case (Inr res)
    show ?thesis
    proof (cases res)
      case None
      with er Inr reg show ?thesis by (simp add: Erase_def)
    next
      case (Some jc)
      obtain j ce where jc: "jc = (j, ce)" by (cases jc)
      show ?thesis
      proof (cases "provider ce")
        case None
        from GetEntry_inline [OF s _ None] Inr Some jc
        have m: "map_of (storage w) k = Some ce" by simp
        from m None r have kp: "k \<noteq> p" by auto
        from er Inr Some jc None
        have w': "w' = w\<lparr>storage := erase_key k (storage w)\<rparr>" by (simp add: Erase_def)
        show ?thesis unfolding w'
          by (rule registered_prefix_storage [OF reg]) (use kp in \<open>simp add: map_of_erase_key\<close>)
      next
        case (Some pn)
        with er Inr \<open>res = Some jc\<close> jc show ?thesis
          by (auto simp: Erase_def split: option.splits dest: registered_prefix_invoke [OF reg])
      qed
    qed
  qed
qed

lemma registered_prefix_subscript:
  assumes inv: "store_inv w" and reg: "registered_prefix w p" and sub: "subscript k w = Inr w'"
  shows "registered_prefix w' p"
proof (cases "map_of (storage w) k")
  case (Some ce)
  with sub reg show ?thesis by (simp add: subscript_def)
next
  case None
  from inv have s: "sorted_keys (storage w)" by (simp add: store_inv_iff)
  from reg obtain P ep where r: "map_of (storage w) p = Some ep" by (rule registered_prefixD)
  with None have kp: "k \<noteq> p" by auto
  show ?thesis
  proof (cases "GetEntry k w")
    case (Inl err)
    with sub None show ?thesis by (simp add: subscript_def)
  next
    case (Inr res)
    show ?thesis
    proof (cases res)
      case None': None
      with sub None Inr
      have e: "w' = w\<lparr>storage := try_emplace k ConditionEntry_default (storage w)\<rparr>"
        by (simp add: subscript_def)
      show ?thesis unfolding e
        by (rule registered_prefix_storage [OF reg])
           (use kp in \<open>simp add: map_of_try_emplace [OF s]\<close>)
    next
      case (Some jc)
      obtain j ceprov where jc: "jc = (j, ceprov)" by (cases jc)
      from sub None Inr Some jc
      have e: "w' = w\<lparr>storage :=
                      assign_at k (\<lambda>ce. ce\<lparr>provider := provider ceprov, fullKey := k\<rparr>)
                        (try_emplace k ConditionEntry_default (storage w))\<rparr>"
        by (simp add: subscript_def)
      show ?thesis unfolding e
        by (rule registered_prefix_storage [OF reg])
           (use kp in \<open>simp add: map_of_assign_at map_of_try_emplace [OF s]\<close>)
    qed
  qed
qed


lemma registered_prefix_Add:
  assumes inv: "store_inv w" and reg: "registered_prefix w p" and add: "Add k v w = Inr (b, w')"
  shows "registered_prefix w' p"
proof -
  from add obtain g w1 where g: "Get k w = Inr (g, w1)" and st: "Set k (g + v) w1 = Inr (b, w')"
    by (auto simp: Add_def split: sum.splits)
  from Get_Inr [OF g] obtain x where w1: "w1 = w\<lparr>ext := x\<rparr>" ..
  have "store_inv w1" "registered_prefix w1 p"
    using inv reg by (simp_all add: w1 store_inv_ext registered_prefix_ext)
  then show ?thesis using st by (rule registered_prefix_Set)
qed

lemma registered_prefix_Load_children:
  "store_inv w \<Longrightarrow> registered_prefix w p \<Longrightarrow> Load_children cs w = Inr w' \<Longrightarrow>
     registered_prefix w' p"
proof (induction cs arbitrary: w)
  case Nil
  then show ?case by simp
next
  case (Cons c cs)
  from Cons.prems(3) obtain b w1 where
    1: "Set (Token0 c) (if Size c \<ge> 2 then Value c 1 else 1) w = Inr (b, w1)"
    and 2: "Load_children cs w1 = Inr w'"
    by (auto split: sum.splits)
  from store_inv_Set [OF Cons.prems(1) 1] have i: "store_inv w1" .
  from registered_prefix_Set [OF Cons.prems(1,2) 1] have r: "registered_prefix w1 p" .
  from Cons.IH [OF i r 2] show ?case .
qed

lemma between_store_eq:
  "between_store =
     \<lparr>storage = [(''a'', \<lparr>value = 0, provider = Some ''a'', fullKey = []\<rparr>),
                 (''am'', \<lparr>value = 0, provider = Some ''am'', fullKey = []\<rparr>),
                 (''az'', \<lparr>value = 0, provider = Some ''a'', fullKey = ''az''\<rparr>)],
      providers = [(''a'',
         \<lparr>name = ''a'', isPrefixProvider = True,
          getFunction = Some (\<lambda>k x. (x, x)), hasFunction = Some (\<lambda>k x. (True, x)),
          setFunction = Some (\<lambda>k v x. (True, v)), eraseFunction = Some (\<lambda>k x. (False, x))\<rparr>),
        (''am'',
         \<lparr>name = ''am'', isPrefixProvider = False,
          getFunction = None, hasFunction = None, setFunction = None, eraseFunction = None\<rparr>)],
      ext = 7\<rparr>"
  by (simp add: between_store_def az_store_def GetProviderNamed_def assign_at_def
      ConditionEntry_default_def DerivedProvider_ctor_def counter_callbacks_def
      SetGetFunction_def SetHasFunction_def SetSetFunction_def SetEraseFunction_def)


section \<open>\<open>Add\<close> and its two resolutions\<close>

lemma Get_resolved: "Get nm w = (case GetEntry nm w of Inl err \<Rightarrow> Inl err | Inr r \<Rightarrow> read_resolved r nm w)"
  by (simp add: Get_def read_resolved_def split: sum.split option.split)

lemma Set_resolved:
  "Set nm v w = (case GetEntry nm w of Inl err \<Rightarrow> Inl err | Inr r \<Rightarrow> write_resolved r nm v w)"
  by (simp add: Set_def write_resolved_def split: sum.split option.split)

lemma Add_eq_Add_spec: "Add nm d w = Add_spec nm d w"
  unfolding Add_def Add_spec_def Get_resolved
  by (simp add: Set_resolved split: sum.split)

section \<open>The claims\<close>

text \<open>
  C1, amended. \<open>GetProviderPrefixed p\<close> registers a prefix provider for \<open>p\<close>, unless a
  provider is already registered under \<open>p\<close>, which then stays as it is; the
  registration (\<open>registered_prefix\<close>) is kept by every operation of the store. In a
  state with that registration let the name \<open>k\<close> queried start with \<open>p\<close>. The index
  then has an entry with the greatest key not above \<open>k\<close>, at a key \<open>j\<close> from \<open>p\<close> to
  \<open>k\<close>, and this entry alone decides. If \<open>j\<close> is \<open>k\<close>, \<open>GetEntry\<close> returns that exact
  entry. If \<open>j\<close> is another key and its entry refers to the provider of \<open>p\<close>, \<open>GetEntry\<close>
  returns that entry, and \<open>Get\<close> and \<open>Has\<close> call the get and has callbacks of that
  provider with the full name \<open>k\<close>. If \<open>j\<close> is another key and its entry does not refer
  to the provider of \<open>p\<close>, \<open>GetEntry\<close> returns no entry that does; when that entry has
  no provider at all, \<open>GetEntry\<close> returns no entry, \<open>Get\<close> gives 0 and \<open>Has\<close> false.

  In \<open>between_store\<close> the entry of another provider lies between the prefix \<open>a\<close> and
  the name \<open>azz\<close>, whose nearest entry \<open>az\<close> refers to the prefix provider, which
  answers. The claim as stated, with the exact entry as the only exception, fails: in
  \<open>shadowed_store\<close> the nearest entry of the name \<open>abc\<close> is the primary entry \<open>ab\<close>,
  and \<open>abc\<close> resolves to no entry.
\<close>

theorem C1_prefix_resolution:
  assumes "store_inv w" "registered_prefix w p" "take (length p) k = p"
  shows "(\<exists>P j ce. map_of (providers w) p = Some P \<and> isPrefixProvider P \<and>
            nearest k (storage w) = Some (j, ce) \<and> map_of (storage w) j = Some ce \<and>
            p \<le> j \<and> j \<le> k \<and>
            (\<forall>i ci. map_of (storage w) i = Some ci \<longrightarrow> i \<le> k \<longrightarrow> i \<le> j) \<and>
            (j = k \<longrightarrow> GetEntry k w = Inr (Some (k, ce))) \<and>
            (j \<noteq> k \<longrightarrow> provider ce = Some p \<longrightarrow>
               GetEntry k w = Inr (Some (j, ce)) \<and>
               Get k w = invoke (map_option (\<lambda>g. g k) (getFunction P)) w \<and>
               Has k w = invoke (map_option (\<lambda>h. h k) (hasFunction P)) w) \<and>
            (j \<noteq> k \<longrightarrow> provider ce \<noteq> Some p \<longrightarrow>
               (\<forall>j' ce'. GetEntry k w = Inr (Some (j', ce')) \<longrightarrow> provider ce' \<noteq> Some p)) \<and>
            (j \<noteq> k \<longrightarrow> provider ce = None \<longrightarrow>
               GetEntry k w = Inr None \<and> Get k w = Inr (0, w) \<and> Has k w = Inr (False, w))) \<and>
         (\<forall>w0 :: 'a ConditionsStore. store_inv w0 \<longrightarrow> map_of (providers w0) p = None \<longrightarrow>
            registered_prefix (GetProviderPrefixed p w0) p) \<and>
         (\<forall>(w0 :: 'a ConditionsStore) Q. store_inv w0 \<longrightarrow> map_of (providers w0) p = Some Q \<longrightarrow>
            map_of (providers (GetProviderPrefixed p w0)) p = Some Q) \<and>
         (\<forall>q v b w'. Set q v w = Inr (b, w') \<longrightarrow> registered_prefix w' p) \<and>
         (\<forall>q v b w'. Add q v w = Inr (b, w') \<longrightarrow> registered_prefix w' p) \<and>
         (\<forall>q b w'. Erase q w = Inr (b, w') \<longrightarrow> registered_prefix w' p) \<and>
         (\<forall>q w'. subscript q w = Inr w' \<longrightarrow> registered_prefix w' p) \<and>
         (\<forall>node w'. Load node w = Inr w' \<longrightarrow> registered_prefix w' p) \<and>
         (\<forall>q. registered_prefix (GetProviderNamed q w) p) \<and>
         (\<forall>q. registered_prefix (GetProviderPrefixed q w) p)"
proof -
  from assms(2) obtain P ep where r: "map_of (providers w) p = Some P" "isPrefixProvider P"
    "map_of (storage w) p = Some ep" "provider ep = Some p"
    by (rule registered_prefixD)
  from nearest_resolution [OF assms(1) r(1,2,3) assms(3)] r(1,2)
  have 1: "\<exists>P j ce. map_of (providers w) p = Some P \<and> isPrefixProvider P \<and>
            nearest k (storage w) = Some (j, ce) \<and> map_of (storage w) j = Some ce \<and>
            p \<le> j \<and> j \<le> k \<and>
            (\<forall>i ci. map_of (storage w) i = Some ci \<longrightarrow> i \<le> k \<longrightarrow> i \<le> j) \<and>
            (j = k \<longrightarrow> GetEntry k w = Inr (Some (k, ce))) \<and>
            (j \<noteq> k \<longrightarrow> provider ce = Some p \<longrightarrow>
               GetEntry k w = Inr (Some (j, ce)) \<and>
               Get k w = invoke (map_option (\<lambda>g. g k) (getFunction P)) w \<and>
               Has k w = invoke (map_option (\<lambda>h. h k) (hasFunction P)) w) \<and>
            (j \<noteq> k \<longrightarrow> provider ce \<noteq> Some p \<longrightarrow>
               (\<forall>j' ce'. GetEntry k w = Inr (Some (j', ce')) \<longrightarrow> provider ce' \<noteq> Some p)) \<and>
            (j \<noteq> k \<longrightarrow> provider ce = None \<longrightarrow>
               GetEntry k w = Inr None \<and> Get k w = Inr (0, w) \<and> Has k w = Inr (False, w))"
    by (intro exI [of _ P]) simp
  have 2: "\<forall>w0 :: 'a ConditionsStore. store_inv w0 \<longrightarrow> map_of (providers w0) p = None \<longrightarrow>
            registered_prefix (GetProviderPrefixed p w0) p"
    using registered_prefix_established by blast
  have 3: "\<forall>(w0 :: 'a ConditionsStore) Q. store_inv w0 \<longrightarrow> map_of (providers w0) p = Some Q \<longrightarrow>
            map_of (providers (GetProviderPrefixed p w0)) p = Some Q"
    using GetProviderPrefixed_existing by blast
  have 4: "\<forall>q v b w'. Set q v w = Inr (b, w') \<longrightarrow> registered_prefix w' p"
    using registered_prefix_Set [OF assms(1,2)] by blast
  have 5: "\<forall>q v b w'. Add q v w = Inr (b, w') \<longrightarrow> registered_prefix w' p"
    using registered_prefix_Add [OF assms(1,2)] by blast
  have 6: "\<forall>q b w'. Erase q w = Inr (b, w') \<longrightarrow> registered_prefix w' p"
    using registered_prefix_Erase [OF assms(1,2)] by blast
  have 7: "\<forall>q w'. subscript q w = Inr w' \<longrightarrow> registered_prefix w' p"
    using registered_prefix_subscript [OF assms(1,2)] by blast
  have 8: "\<forall>node w'. Load node w = Inr w' \<longrightarrow> registered_prefix w' p"
    using registered_prefix_Load_children [OF assms(1,2)] by (simp add: Load_def)
  have 9: "\<forall>q. registered_prefix (GetProviderNamed q w) p"
    using registered_prefix_register(2) [OF assms(1,2)] by blast
  have 10: "\<forall>q. registered_prefix (GetProviderPrefixed q w) p"
    using registered_prefix_register(1) [OF assms(1,2)] by blast
  from 1 2 3 4 5 6 7 8 9 10 show ?thesis by (intro conjI)
qed

theorem C1_prefix_resolution_witness:
  "registered_prefix (GetProviderPrefixed ''a'' (ConditionsStore_ctor (7::int64))) ''a'' \<and>
   subscript ''az''
     (on_provider ''a'' counter_callbacks (GetProviderPrefixed ''a'' (ConditionsStore_ctor 7))) =
     Inr az_store \<and>
   between_store = GetProviderNamed ''am'' az_store \<and>
   store_inv between_store \<and> registered_prefix between_store ''a'' \<and>
   take (length ''a'') ''azz'' = ''a'' \<and>
   map_of (storage between_store) ''am'' =
     Some \<lparr>value = 0, provider = Some ''am'', fullKey = []\<rparr> \<and>
   nearest ''azz'' (storage between_store) =
     Some (''az'', \<lparr>value = 0, provider = Some ''a'', fullKey = ''az''\<rparr>) \<and>
   Get ''azz'' between_store = Inr (7, between_store) \<and>
   Has ''azz'' between_store = Inr (True, between_store)"
proof -
  let ?ce = "\<lparr>value = 0, provider = Some ''a'', fullKey = ''az''\<rparr>"
  have 0: "subscript ''az''
     (on_provider ''a'' counter_callbacks (GetProviderPrefixed ''a'' (ConditionsStore_ctor 7))) =
     Inr az_store"
    by (simp add: subscript_def GetEntry_def on_provider_def GetProviderPrefixed_def
        ConditionsStore_ctor_def assign_at_def ConditionEntry_default_def az_store_def
        DerivedProvider_ctor_def counter_callbacks_def SetGetFunction_def SetHasFunction_def
        SetSetFunction_def SetEraseFunction_def)
  have 1: "store_inv between_store"
    by (simp add: between_store_eq store_inv_def provider_invariant_def sorted_keys_def)
  have 2: "registered_prefix between_store ''a''"
    by (simp add: between_store_eq registered_prefix_def)
  have 3: "take (length ''a'') ''azz'' = ''a''" by simp
  have 4: "map_of (storage between_store) ''am'' =
      Some \<lparr>value = 0, provider = Some ''am'', fullKey = []\<rparr>"
    by (simp add: between_store_eq)
  have 5: "nearest ''azz'' (storage between_store) = Some (''az'', ?ce)"
    by (simp add: between_store_eq nearest_def)
  have 8: "map_of (providers (ConditionsStore_ctor (7::int64))) ''a'' = None"
    by (simp add: ConditionsStore_ctor_def)
  from C1_prefix_resolution [OF 1 2 3, THEN conjunct2, THEN conjunct1, rule_format,
      OF store_inv_ctor 8]
  have 9: "registered_prefix (GetProviderPrefixed ''a'' (ConditionsStore_ctor (7::int64))) ''a''" .
  from C1_prefix_resolution [OF 1 2 3, THEN conjunct1] obtain P j ce where
    r: "map_of (providers between_store) ''a'' = Some P"
       "nearest ''azz'' (storage between_store) = Some (j, ce)"
       "j \<noteq> ''azz'' \<longrightarrow> provider ce = Some ''a'' \<longrightarrow>
          GetEntry ''azz'' between_store = Inr (Some (j, ce)) \<and>
          Get ''azz'' between_store =
            invoke (map_option (\<lambda>g. g ''azz'') (getFunction P)) between_store \<and>
          Has ''azz'' between_store =
            invoke (map_option (\<lambda>h. h ''azz'') (hasFunction P)) between_store"
    by (elim exE conjE) (rule that, assumption+)
  from r(2) have "Some (j, ce) = Some (''az'', ?ce)" by (simp only: 5)
  then have j: "j = ''az''" and ce: "ce = ?ce" by auto
  from r(3) have g: "Get ''azz'' between_store =
        invoke (map_option (\<lambda>g. g ''azz'') (getFunction P)) between_store"
    and h: "Has ''azz'' between_store =
        invoke (map_option (\<lambda>h. h ''azz'') (hasFunction P)) between_store"
    by (simp_all add: j ce)
  from r(1) have P: "getFunction P = Some (\<lambda>k x. (x, x))" "hasFunction P = Some (\<lambda>k x. (True, x))"
    by (auto simp: between_store_eq)
  have 6: "Get ''azz'' between_store = Inr (7, between_store)"
    unfolding g P by (simp add: invoke_def between_store_eq)
  have 7: "Has ''azz'' between_store = Inr (True, between_store)"
    unfolding h P by (simp add: invoke_def between_store_eq)
  show ?thesis
    by (intro conjI 9 0 between_store_def 1 2 3 4 5 6 7)
qed

theorem C1_counterexample:
  "Set ''ab'' 5 (ConditionsStore_ctor 7) = Inr (True, primed_store) \<and>
   store_inv shadowed_store \<and>
   map_option isPrefixProvider (map_of (providers shadowed_store) ''a'') = Some True \<and>
   take (length ''a'') ''abc'' = ''a'' \<and>
   map_of (storage shadowed_store) ''abc'' = None \<and>
   GetEntry ''abc'' shadowed_store = Inr None \<and>
   Get ''abc'' shadowed_store = Inr (0, shadowed_store) \<and>
   Has ''abc'' shadowed_store = Inr (False, shadowed_store) \<and>
   Get ''aa'' shadowed_store = Inr (7, shadowed_store) \<and>
   Has ''aa'' shadowed_store = Inr (True, shadowed_store)"
proof -
  have 1: "Set ''ab'' 5 (ConditionsStore_ctor 7) = Inr (True, primed_store)"
    by (simp add: Set_def GetEntry_def ConditionsStore_ctor_def primed_store_def assign_at_def
        ConditionEntry_default_def)
  have 2: "store_inv shadowed_store"
    by (simp add: shadowed_store_eq store_inv_def provider_invariant_def sorted_keys_def)
  have 3: "map_option isPrefixProvider (map_of (providers shadowed_store) ''a'') = Some True"
    by (simp add: shadowed_store_eq)
  have 4: "map_of (storage shadowed_store) ''abc'' = None" by (simp add: shadowed_store_eq)
  have 5: "GetEntry ''abc'' shadowed_store = Inr None"
    by (simp add: shadowed_store_eq GetEntry_def)
  have 6: "Get ''abc'' shadowed_store = Inr (0, shadowed_store)"
    by (simp add: Get_def 5)
  have 7: "Has ''abc'' shadowed_store = Inr (False, shadowed_store)"
    by (simp add: Has_def 5)
  have 8: "GetEntry ''aa'' shadowed_store =
      Inr (Some (''a'', \<lparr>value = 0, provider = Some ''a'', fullKey = []\<rparr>))"
    by (simp add: shadowed_store_eq GetEntry_def)
  have 9: "Get ''aa'' shadowed_store = Inr (7, shadowed_store)"
    unfolding Get_def 8 by (simp add: shadowed_store_eq invoke_def)
  have 10: "Has ''aa'' shadowed_store = Inr (True, shadowed_store)"
    unfolding Has_def 8 by (simp add: shadowed_store_eq invoke_def)
  from 1 2 3 4 5 6 7 9 10 show ?thesis by simp
qed

text \<open>
  C2. Round trip. For a store whose entries are all primary, \<open>Save\<close> returns, and
  loading what it wrote into a fresh store gives a store in which \<open>Get\<close> returns, for
  every key, the value it returned before the save; \<open>Has\<close> is true there exactly for
  the keys whose value was not 0, so a key that held 0 reads as 0 and as not set. An
  entry with value 1 is written as a line with the key alone, and reads back as 1.
\<close>

theorem C2_save_load_round_trip:
  assumes "sorted_keys (storage w)" "list_all primary (storage w)"
  shows "\<exists>out w'. Save w DataWriter_ctor = Some out \<and>
           Load_saved out (ConditionsStore_ctor x) = Inr w' \<and>
           (\<forall>k. \<exists>v. Get k w = Inr (v, w) \<and> Get k w' = Inr (v, w') \<and>
                     Has k w' = Inr (v \<noteq> 0, w')) \<and>
           (\<forall>k ce. map_of (storage w) k = Some ce \<longrightarrow> value ce = 1 \<longrightarrow>
                     (1, k, []) \<in> set (written out) \<and> Get k w' = Inr (1, w'))"
proof -
  let ?xs = "storage w"
  let ?kvs = "filter (\<lambda>kv. snd kv \<noteq> 0) (map pair_of ?xs)"
  let ?fresh = "ConditionsStore_ctor x :: 'b ConditionsStore"
  have all: "filter primary ?xs = ?xs" using assms(2) by (simp add: list_all_iff)
  have fresh: "sorted_keys (storage ?fresh)" "list_all primary (storage ?fresh)"
    "value_at ?fresh = (\<lambda>k. None)"
    by (simp_all add: ConditionsStore_ctor_def sorted_keys_def value_at_def fun_eq_iff)
  from Load_children_primary [OF fresh(1,2) distinct_saved [OF assms(1)]] obtain w' where
    w': "Load_children (map node_of ?kvs) ?fresh = Inr w'" "sorted_keys (storage w')"
        "list_all primary (storage w')"
        "\<forall>j. value_at w' j = (case map_of ?kvs j of Some v \<Rightarrow> Some v | None \<Rightarrow> value_at ?fresh j)"
    by blast
  have va: "value_at w' k =
      (case map_of ?xs k of None \<Rightarrow> None
       | Some ce \<Rightarrow> if value ce \<noteq> 0 then Some (value ce) else None)" for k
    using w'(4) by (simp add: fresh(3) map_of_saved [OF assms(1)] split: option.split)
  obtain out where out: "Save w DataWriter_ctor = Some out"
    and ld: "Load_saved out ?fresh = Inr w'"
    and wr: "\<forall>kv\<in>set ?kvs. line_of 1 kv \<in> set (written out)"
  proof (cases "?xs = []")
    case True
    then have "Save w DataWriter_ctor = Some DataWriter_ctor" by (simp add: Save_eq)
    moreover from True w'(1) have "Load_saved DataWriter_ctor ?fresh = Inr w'"
      by (simp add: Load_saved_def read_back_def DataWriter_ctor_def)
    moreover from True have "\<forall>kv\<in>set ?kvs. line_of 1 kv \<in> set (written DataWriter_ctor)"
      by simp
    ultimately show ?thesis by (rule that)
  next
    case False
    with all have "filter primary ?xs \<noteq> []" by simp
    from written_Save [OF this] obtain out where
      o: "Save w DataWriter_ctor = Some out"
         "written out = (0, ''conditions'', []) # map (line_of 1) ?kvs"
      by (auto simp: all)
    from read_back_lines [OF o(2)] w'(1) have "Load_saved out ?fresh = Inr w'"
      by (simp add: Load_saved_def Load_def)
    moreover from o(2) have "\<forall>kv\<in>set ?kvs. line_of 1 kv \<in> set (written out)" by simp
    ultimately show ?thesis using o(1) by (intro that)
  qed
  have get: "\<exists>v. Get k w = Inr (v, w) \<and> Get k w' = Inr (v, w') \<and> Has k w' = Inr (v \<noteq> 0, w')"
    for k
  proof -
    define v where "v = (case map_of ?xs k of None \<Rightarrow> 0 | Some ce \<Rightarrow> value ce)"
    have 1: "Get k w = Inr (v, w)"
      by (simp add: Get_primary(1) [OF assms] value_at_def v_def split: option.split)
    have vw': "value_at w' k = (if v \<noteq> 0 then Some v else None)"
      using va [of k] by (simp add: v_def split: option.split)
    have 2: "Get k w' = Inr (v, w')" by (simp add: Get_primary(1) [OF w'(2,3)] vw')
    have 3: "Has k w' = Inr (v \<noteq> 0, w')" by (simp add: Get_primary(2) [OF w'(2,3)] vw')
    from 1 2 3 show ?thesis by blast
  qed
  have bare: "(1, k, []) \<in> set (written out) \<and> Get k w' = Inr (1, w')"
    if "map_of ?xs k = Some ce" "value ce = 1" for k ce
  proof -
    from that(1) have "(k, ce) \<in> set ?xs" by (rule map_of_SomeD)
    then have "pair_of (k, ce) \<in> pair_of ` set ?xs" by (rule imageI)
    with that(2) have "(k, 1) \<in> set ?kvs" by (simp add: pair_of_def)
    with wr have "line_of 1 (k, 1) \<in> set (written out)" by blast
    moreover have "Get k w' = Inr (1, w')"
      using that by (simp add: Get_primary [OF w'(2,3)] va)
    ultimately show ?thesis by (simp add: line_of_def)
  qed
  from out ld get bare show ?thesis by blast
qed

theorem C2_save_load_round_trip_witness:
  "sorted_keys (storage saved_store) \<and> list_all primary (storage saved_store) \<and>
   Save saved_store DataWriter_ctor =
     Some \<lparr>indent = 0, written = [(0, ''conditions'', []), (1, ''a'', []), (1, ''b'', [2])]\<rparr> \<and>
   Load_saved \<lparr>indent = 0, written = [(0, ''conditions'', []), (1, ''a'', []), (1, ''b'', [2])]\<rparr>
     (ConditionsStore_ctor (0::int64)) = Inr reloaded_store \<and>
   Get ''a'' reloaded_store = Inr (1, reloaded_store) \<and>
   Get ''b'' reloaded_store = Inr (2, reloaded_store) \<and>
   Has ''z'' saved_store = Inr (True, saved_store) \<and>
   Get ''z'' reloaded_store = Inr (0, reloaded_store) \<and>
   Has ''z'' reloaded_store = Inr (False, reloaded_store)"
proof -
  let ?out = "\<lparr>indent = 0, written = [(0, ''conditions'', []), (1, ''a'', []), (1, ''b'', [2::int64])]\<rparr>"
  have 1: "sorted_keys (storage saved_store)"
    by (simp add: saved_store_def sorted_keys_def)
  have 2: "list_all primary (storage saved_store)"
    by (simp add: saved_store_def primary_def)
  have 3: "Save saved_store DataWriter_ctor = Some ?out"
    by (simp add: Save_eq saved_store_def primary_def pair_of_def Save_body_def Write_def
        BeginChild_def EndChild_def DataWriter_ctor_def)
  have 4: "Load_saved ?out (ConditionsStore_ctor (0::int64)) = Inr reloaded_store"
    by (simp add: Load_saved_def read_back_def Load_def Size_def Value_def Set_def GetEntry_def
        ConditionsStore_ctor_def assign_at_def ConditionEntry_default_def reloaded_store_def)
  have ga: "Get ''a'' saved_store = Inr (1, saved_store)"
    by (simp add: Get_def GetEntry_def saved_store_def)
  have gb: "Get ''b'' saved_store = Inr (2, saved_store)"
    by (simp add: Get_def GetEntry_def saved_store_def)
  have gz: "Get ''z'' saved_store = Inr (0, saved_store)"
    by (simp add: Get_def GetEntry_def saved_store_def)
  have hz: "Has ''z'' saved_store = Inr (True, saved_store)"
    by (simp add: Has_def GetEntry_def saved_store_def)
  from C2_save_load_round_trip [OF 1 2, of "0::int64"] obtain out w' where
    r: "Save saved_store DataWriter_ctor = Some out"
       "Load_saved out (ConditionsStore_ctor (0::int64)) = Inr w'"
       "\<forall>k. \<exists>v. Get k saved_store = Inr (v, saved_store) \<and> Get k w' = Inr (v, w') \<and>
                 Has k w' = Inr (v \<noteq> 0, w')"
    by blast
  from r(1) 3 have o: "out = ?out" by simp
  with r(2) 4 have w: "w' = reloaded_store" by simp
  from r(3) obtain va where va: "Get ''a'' saved_store = Inr (va, saved_store)"
    "Get ''a'' w' = Inr (va, w')" by blast
  from va(1) ga have "va = 1" by simp
  with va(2) w have 5: "Get ''a'' reloaded_store = Inr (1, reloaded_store)" by simp
  from r(3) obtain vb where vb: "Get ''b'' saved_store = Inr (vb, saved_store)"
    "Get ''b'' w' = Inr (vb, w')" by blast
  from vb(1) gb have "vb = 2" by simp
  with vb(2) w have 6: "Get ''b'' reloaded_store = Inr (2, reloaded_store)" by simp
  from r(3) obtain vz where vz: "Get ''z'' saved_store = Inr (vz, saved_store)"
    "Get ''z'' w' = Inr (vz, w')" "Has ''z'' w' = Inr (vz \<noteq> 0, w')" by blast
  from vz(1) gz have "vz = 0" by simp
  with vz(2,3) w have 7: "Get ''z'' reloaded_store = Inr (0, reloaded_store) \<and>
      Has ''z'' reloaded_store = Inr (False, reloaded_store)" by simp
  from 1 2 3 4 5 6 7 hz show ?thesis by blast
qed




text \<open>
  C4. A key that has no entry in the index and that no registered provider covers reads
  as 0 and as not set: \<open>Get\<close> returns 0, \<open>Has\<close> returns false, and both return the
  state they were given, with no callback run.
\<close>

theorem C4_unset_key:
  assumes "store_inv w" "map_of (storage w) k = None"
    "list_all (\<lambda>(pn, p). \<not> covers p k) (providers w)"
  shows "Get k w = Inr (0, w) \<and> Has k w = Inr (False, w)"
  using GetEntry_uncovered [OF assms] by (simp add: Get_def Has_def)

theorem C4_unset_key_witness:
  "store_inv events_store \<and> map_of (storage events_store) ''other'' = None \<and>
   list_all (\<lambda>(pn, p). \<not> covers p ''other'') (providers events_store) \<and>
   Get ''other'' events_store = Inr (0, events_store) \<and>
   Has ''other'' events_store = Inr (False, events_store)"
proof -
  have 1: "store_inv events_store"
    by (simp add: events_store_def GetProviderPrefixed_def ConditionsStore_ctor_def
        assign_at_def ConditionEntry_default_def DerivedProvider_ctor_def store_inv_def
        provider_invariant_def sorted_keys_def)
  have 2: "map_of (storage events_store) ''other'' = None"
    by (simp add: events_store_def GetProviderPrefixed_def ConditionsStore_ctor_def
        assign_at_def)
  have 3: "list_all (\<lambda>(pn, p). \<not> covers p ''other'') (providers events_store)"
    by (simp add: events_store_def GetProviderPrefixed_def ConditionsStore_ctor_def
        DerivedProvider_ctor_def covers_def)
  from C4_unset_key [OF 1 2 3] 1 2 3 show ?thesis by simp
qed

text \<open>
  C5. When the key resolves to no entry or to an entry without a provider, \<open>Set\<close>
  succeeds (creating the entry if there was none), and in the state it returns \<open>Get\<close>
  gives the value set and \<open>Has\<close> gives true.
\<close>

theorem C5_set_then_get:
  assumes "sorted_keys (storage w)"
    and "GetEntry k w = Inr None \<or>
         (\<exists>j ce. GetEntry k w = Inr (Some (j, ce)) \<and> provider ce = None)"
  shows "\<exists>w'. Set k v w = Inr (True, w') \<and> Get k w' = Inr (v, w') \<and> Has k w' = Inr (True, w')"
  using assms(2)
proof
  assume none: "GetEntry k w = Inr None"
  let ?xs = "assign_at k (\<lambda>ce. ce\<lparr>value := v\<rparr>) (try_emplace k ConditionEntry_default (storage w))"
  let ?w = "w\<lparr>storage := ?xs\<rparr>"
  have absent: "map_of (storage w) k = None" by (rule GetEntry_None_absent [OF assms(1) none])
  have s: "sorted_keys (storage ?w)"
    by (simp add: sorted_assign_at sorted_try_emplace assms(1))
  have m: "map_of (storage ?w) k = Some (ConditionEntry_default\<lparr>value := v\<rparr>)"
    by (simp add: map_of_assign_at map_of_try_emplace [OF assms(1)] absent)
  have p: "provider (ConditionEntry_default\<lparr>value := v\<rparr>) = None"
    by (simp add: ConditionEntry_default_def)
  have "Set k v w = Inr (True, ?w)" using none by (simp add: Set_def)
  moreover have "Get k ?w = Inr (v, ?w)" using Get_inline(1) [OF s m p] by simp
  moreover have "Has k ?w = Inr (True, ?w)" by (rule Get_inline(2) [OF s m p])
  ultimately show ?thesis by blast
next
  assume "\<exists>j ce. GetEntry k w = Inr (Some (j, ce)) \<and> provider ce = None"
  then obtain j ce where g: "GetEntry k w = Inr (Some (j, ce))" and pn: "provider ce = None"
    by blast
  from GetEntry_inline [OF assms(1) g pn] have j: "j = k" and mk: "map_of (storage w) k = Some ce"
    by simp_all
  let ?w = "w\<lparr>storage := assign_at k (\<lambda>ce. ce\<lparr>value := v\<rparr>) (storage w)\<rparr>"
  have s: "sorted_keys (storage ?w)" by (simp add: sorted_assign_at assms(1))
  have m: "map_of (storage ?w) k = Some (ce\<lparr>value := v\<rparr>)"
    by (simp add: map_of_assign_at mk)
  have p: "provider (ce\<lparr>value := v\<rparr>) = None" using pn by simp
  have "Set k v w = Inr (True, ?w)" using g pn j by (simp add: Set_def)
  moreover have "Get k ?w = Inr (v, ?w)" using Get_inline(1) [OF s m p] by simp
  moreover have "Has k ?w = Inr (True, ?w)" by (rule Get_inline(2) [OF s m p])
  ultimately show ?thesis by blast
qed

theorem C5_set_then_get_witness:
  "sorted_keys (storage events_store) \<and>
   (GetEntry ''other'' events_store = Inr None \<or>
     (\<exists>j ce. GetEntry ''other'' events_store = Inr (Some (j, ce)) \<and> provider ce = None)) \<and>
   (\<exists>w'. Set ''other'' 7 events_store = Inr (True, w') \<and> Get ''other'' w' = Inr (7, w') \<and>
       Has ''other'' w' = Inr (True, w'))"
proof -
  have 1: "sorted_keys (storage events_store)"
    by (simp add: events_store_defs sorted_keys_def)
  have 2: "GetEntry ''other'' events_store = Inr None"
    by (simp add: events_store_defs GetEntry_def)
  from C5_set_then_get [OF 1 disjI1 [OF 2], of 7] 1 2 show ?thesis by simp
qed

text \<open>
  C6. When the key resolves to no entry, \<open>Erase\<close> returns true and the state is the one
  it was given: the index, the registry and the data of the callbacks are unchanged.
  That is so, in a state the operations produce, for every key that has no entry and
  that no registered provider covers.
\<close>

theorem C6_erase_absent:
  "(GetEntry k w = Inr None \<longrightarrow> Erase k w = Inr (True, w)) \<and>
   (store_inv w \<longrightarrow> map_of (storage w) k = None \<longrightarrow>
      list_all (\<lambda>(pn, p). \<not> covers p k) (providers w) \<longrightarrow> Erase k w = Inr (True, w))"
proof (intro conjI impI)
  assume "GetEntry k w = Inr None"
  then show "Erase k w = Inr (True, w)" by (simp add: Erase_def)
next
  assume "store_inv w" "map_of (storage w) k = None"
    "list_all (\<lambda>(pn, p). \<not> covers p k) (providers w)"
  then have "GetEntry k w = Inr None" by (rule GetEntry_uncovered)
  then show "Erase k w = Inr (True, w)" by (simp add: Erase_def)
qed

theorem C6_erase_absent_witness:
  "GetEntry ''other'' events_store = Inr None \<and>
   store_inv events_store \<and> map_of (storage events_store) ''other'' = None \<and>
   list_all (\<lambda>(pn, p). \<not> covers p ''other'') (providers events_store) \<and>
   Erase ''other'' events_store = Inr (True, events_store)"
proof -
  have 1: "GetEntry ''other'' events_store = Inr None"
    by (simp add: events_store_defs GetEntry_def)
  have 2: "store_inv events_store"
    by (simp add: events_store_defs store_inv_def provider_invariant_def sorted_keys_def)
  have 3: "map_of (storage events_store) ''other'' = None"
    by (simp add: events_store_defs)
  have 4: "list_all (\<lambda>(pn, p). \<not> covers p ''other'') (providers events_store)"
    by (simp add: events_store_defs covers_def)
  from C6_erase_absent [of "''other''" events_store, THEN conjunct1] 1
  have 5: "Erase ''other'' events_store = Inr (True, events_store)" by simp
  from 1 2 3 4 5 show ?thesis by simp
qed

text \<open>
  C7. \<open>Add\<close> is \<open>Set\<close> applied to the sum of the value \<open>Get\<close> returns and the delta, in the
  state \<open>Get\<close> returns: the same result and the same final state, errors included. The
  name is resolved twice; the second resolution, in the state after \<open>Get\<close>, finds what
  the first found, since \<open>Get\<close> changes neither the index nor the registry. \<open>Add\<close> is
  the function \<open>Add_spec\<close>, which spells the two resolutions out.
\<close>

theorem C7_add_is_set_of_get:
  "Add nm d w = (case Get nm w of Inl err \<Rightarrow> Inl err | Inr (g, w1) \<Rightarrow> Set nm (g + d) w1) \<and>
   (\<forall>g w1. Get nm w = Inr (g, w1) \<longrightarrow>
      GetEntry nm w1 = GetEntry nm w \<and> storage w1 = storage w \<and> providers w1 = providers w) \<and>
   Add nm d w = Add_spec nm d w"
proof (intro conjI allI impI)
  show "Add nm d w = (case Get nm w of Inl err \<Rightarrow> Inl err | Inr (g, w1) \<Rightarrow> Set nm (g + d) w1)"
    by (simp add: Add_def)
next
  show "Add nm d w = Add_spec nm d w" by (rule Add_eq_Add_spec)
next
  fix g w1 assume "Get nm w = Inr (g, w1)"
  from Get_Inr [OF this] obtain x where w1: "w1 = w\<lparr>ext := x\<rparr>" ..
  show "GetEntry nm w1 = GetEntry nm w" by (simp add: w1 GetEntry_ext)
  show "storage w1 = storage w" by (simp add: w1)
  show "providers w1 = providers w" by (simp add: w1)
qed

theorem C7_add_is_set_of_get_witness:
  "Get ''events: won'' wired_store = Inr (0, wired_store) \<and>
   GetEntry ''events: won'' wired_store =
     Inr (Some (''events: '', \<lparr>value = 0, provider = Some ''events: '', fullKey = []\<rparr>)) \<and>
   Add ''events: won'' 3 wired_store = Inr (True, wired_store\<lparr>ext := 3\<rparr>) \<and>
   Add ''score'' 3 wired_store =
     Inr (True, wired_store\<lparr>storage := storage wired_store @
        [(''score'', \<lparr>value = 3, provider = None, fullKey = []\<rparr>)]\<rparr>)"
proof -
  have 1: "Get ''events: won'' wired_store = Inr (0, wired_store)"
    by (simp add: wired_store_eq Get_def GetEntry_def invoke_def)
  have 2: "Set ''events: won'' (0 + 3) wired_store = Inr (True, wired_store\<lparr>ext := 3\<rparr>)"
    by (simp add: wired_store_eq Set_def GetEntry_def invoke_def)
  have 3: "Get ''score'' wired_store = Inr (0, wired_store)"
    by (simp add: wired_store_eq Get_def GetEntry_def invoke_def)
  have 4: "Set ''score'' (0 + 3) wired_store =
      Inr (True, wired_store\<lparr>storage := storage wired_store @
        [(''score'', \<lparr>value = 3, provider = None, fullKey = []\<rparr>)]\<rparr>)"
    by (simp add: wired_store_eq Set_def GetEntry_def invoke_def assign_at_def
        ConditionEntry_default_def)
  have 5: "GetEntry ''events: won'' wired_store =
     Inr (Some (''events: '', \<lparr>value = 0, provider = Some ''events: '', fullKey = []\<rparr>))"
    by (simp add: wired_store_eq GetEntry_def)
  have 6: "Add ''events: won'' 3 wired_store = Inr (True, wired_store\<lparr>ext := 3\<rparr>)"
    using C7_add_is_set_of_get [of "''events: won''" 3 wired_store, THEN conjunct1] 2
    by (simp add: 1)
  have 7: "Add ''score'' 3 wired_store =
     Inr (True, wired_store\<lparr>storage := storage wired_store @
        [(''score'', \<lparr>value = 3, provider = None, fullKey = []\<rparr>)]\<rparr>)"
    using C7_add_is_set_of_get [of "''score''" 3 wired_store, THEN conjunct1] 4
    by (simp add: 3)
  from 1 5 6 7 show ?thesis by blast
qed

text \<open>
  C8. A traversal from \<^verbatim>\<open>PrimariesBegin()\<close> to \<^verbatim>\<open>PrimariesEnd()\<close> ends and yields the
  (key, value) pairs of exactly the entries without a provider, in the order of the
  index, which is ascending key order; no entry with a provider is yielded. The pair an
  iterator yields is the copy it made of the entry at its position: \<open>operator_star\<close>
  reads the iterator alone, not the store.
\<close>

theorem C8_primaries_iteration:
  "Primaries w = Some (map pair_of (filter primary (storage w))) \<and>
   (sorted_keys (storage w) \<longrightarrow>
      sorted_wrt (<) (map fst (map pair_of (filter primary (storage w))))) \<and>
   (\<forall>b. PrimariesBegin w = Some b \<longrightarrow> condMapIt b < length (storage w) \<longrightarrow>
      primary (storage w ! condMapIt b) \<and>
      operator_star b = pair_of (storage w ! condMapIt b))"
proof (intro conjI allI impI)
  show "Primaries w = Some (map pair_of (filter primary (storage w)))" by (rule Primaries_eq)
next
  assume "sorted_keys (storage w)"
  then show "sorted_wrt (<) (map fst (map pair_of (filter primary (storage w))))"
    by (rule sorted_keys_filter)
next
  fix b assume b: "PrimariesBegin w = Some b" "condMapIt b < length (storage w)"
  from PrimariesBegin_settled [of w] b(1) have "settled (storage w) b" by auto
  with b(2) show "primary (storage w ! condMapIt b)"
    "operator_star b = pair_of (storage w ! condMapIt b)"
    by (simp_all add: settled_def operator_star_def)
qed

theorem C8_primaries_iteration_witness:
  "Primaries scenario_store = Some [(''a'', 1), (''b'', 2)] \<and>
   sorted_keys (storage scenario_store) \<and>
   sorted_wrt (<) (map fst [(''a'', 1 :: int64), (''b'', 2)]) \<and>
   PrimariesBegin scenario_store =
     Some \<lparr>condMapIt = 0, condMapEnd = 3, itVal = (''a'', 1)\<rparr> \<and>
   operator_star \<lparr>condMapIt = 0, condMapEnd = 3, itVal = (''a'', 1)\<rparr> = (''a'', 1)"
proof -
  have f: "map pair_of (filter primary (storage scenario_store)) = [(''a'', 1), (''b'', 2)]"
    by (simp add: scenario_store_def primary_def pair_of_def)
  have s: "sorted_keys (storage scenario_store)"
    by (simp add: scenario_store_def sorted_keys_def)
  have b: "PrimariesBegin scenario_store =
     Some \<lparr>condMapIt = 0, condMapEnd = 3, itVal = (''a'', 1)\<rparr>"
    by (simp add: scenario_store_def PrimariesBegin_def PrimariesIterator_ctor_def
        MoveToValueCondition_def skip_providers.simps)
  note c8 = C8_primaries_iteration [of scenario_store]
  from c8 f have 1: "Primaries scenario_store = Some [(''a'', 1), (''b'', 2)]" by simp
  from c8 s f have 2: "sorted_wrt (<) (map fst [(''a'', 1 :: int64), (''b'', 2)])" by simp
  from c8 b have 3: "operator_star \<lparr>condMapIt = 0, condMapEnd = 3, itVal = (''a'', 1)\<rparr> =
      pair_of (storage scenario_store ! 0)" by (simp add: scenario_store_def)
  then have 4: "operator_star \<lparr>condMapIt = 0, condMapEnd = 3, itVal = (''a'', 1)\<rparr> = (''a'', 1)"
    by (simp add: scenario_store_def pair_of_def)
  from 1 2 s b 4 show ?thesis by blast
qed

text \<open>
  C9. The invariant of the store: every entry whose provider reference is set refers to a
  provider in the registry whose name is the key of the entry or a prefix of it. It
  holds in the empty store, and together with the key order of the two maps and the
  registry being keyed by provider names it is preserved by \<open>Set\<close>, \<open>Add\<close>,
  \<open>Erase\<close>, \<^verbatim>\<open>operator[]\<close>, \<open>Load\<close>, \<open>GetProviderNamed\<close>, \<open>GetProviderPrefixed\<close>,
  the four setters of a provider and \<open>Clear\<close>, whenever the operation returns.
\<close>

theorem C9_store_invariant:
  assumes "store_inv w"
  shows "provider_invariant w \<and>
    (\<forall>b w'. Set k v w = Inr (b, w') \<longrightarrow> store_inv w') \<and>
    (\<forall>b w'. Add k v w = Inr (b, w') \<longrightarrow> store_inv w') \<and>
    (\<forall>b w'. Erase k w = Inr (b, w') \<longrightarrow> store_inv w') \<and>
    (\<forall>w'. subscript k w = Inr w' \<longrightarrow> store_inv w') \<and>
    (\<forall>w'. Load node w = Inr w' \<longrightarrow> store_inv w') \<and>
    store_inv (GetProviderNamed k w) \<and>
    store_inv (GetProviderPrefixed k w) \<and>
    store_inv (on_provider k (SetGetFunction g) w) \<and>
    store_inv (on_provider k (SetHasFunction h) w) \<and>
    store_inv (on_provider k (SetSetFunction s) w) \<and>
    store_inv (on_provider k (SetEraseFunction e) w) \<and>
    store_inv (Clear w) \<and>
    store_inv (ConditionsStore_ctor x)"
proof -
  have "provider_invariant w" using assms by (simp add: store_inv_def)
  moreover have "\<forall>b w'. Set k v w = Inr (b, w') \<longrightarrow> store_inv w'"
    using store_inv_Set [OF assms] by blast
  moreover have "\<forall>b w'. Add k v w = Inr (b, w') \<longrightarrow> store_inv w'"
    using store_inv_Add [OF assms] by blast
  moreover have "\<forall>b w'. Erase k w = Inr (b, w') \<longrightarrow> store_inv w'"
    using store_inv_Erase [OF assms] by blast
  moreover have "\<forall>w'. subscript k w = Inr w' \<longrightarrow> store_inv w'"
    using store_inv_subscript [OF assms] by blast
  moreover have "\<forall>w'. Load node w = Inr w' \<longrightarrow> store_inv w'"
    using store_inv_Load_children [OF assms] by (simp add: Load_def)
  moreover have "store_inv (GetProviderNamed k w)"
    by (rule store_inv_GetProviderNamed [OF assms])
  moreover have "store_inv (GetProviderPrefixed k w)"
    by (rule store_inv_GetProviderPrefixed [OF assms])
  moreover have "store_inv (on_provider k (SetGetFunction g) w)"
    by (rule store_inv_on_provider [OF assms]) (simp add: SetGetFunction_def)
  moreover have "store_inv (on_provider k (SetHasFunction h) w)"
    by (rule store_inv_on_provider [OF assms]) (simp add: SetHasFunction_def)
  moreover have "store_inv (on_provider k (SetSetFunction s) w)"
    by (rule store_inv_on_provider [OF assms]) (simp add: SetSetFunction_def)
  moreover have "store_inv (on_provider k (SetEraseFunction e) w)"
    by (rule store_inv_on_provider [OF assms]) (simp add: SetEraseFunction_def)
  moreover have "store_inv (Clear w)" by (rule store_inv_Clear)
  moreover have "store_inv (ConditionsStore_ctor x)" by (rule store_inv_ctor)
  ultimately show ?thesis by blast
qed

theorem C9_store_invariant_witness:
  "store_inv wired_store \<and> provider_invariant wired_store \<and>
   store_inv (GetProviderNamed ''events: won'' wired_store) \<and>
   store_inv (GetProviderPrefixed ''events: won'' wired_store) \<and>
   subscript ''events: won'' wired_store =
     Inr (wired_store\<lparr>storage := storage wired_store @
        [(''events: won'', \<lparr>value = 0, provider = Some ''events: '', fullKey = ''events: won''\<rparr>)]\<rparr>) \<and>
   store_inv (wired_store\<lparr>storage := storage wired_store @
        [(''events: won'', \<lparr>value = 0, provider = Some ''events: '', fullKey = ''events: won''\<rparr>)]\<rparr>) \<and>
   store_inv (Clear wired_store)"
proof -
  have 1: "store_inv wired_store"
    by (simp add: wired_store_eq store_inv_def provider_invariant_def sorted_keys_def)
  have 2: "subscript ''events: won'' wired_store =
     Inr (wired_store\<lparr>storage := storage wired_store @
        [(''events: won'', \<lparr>value = 0, provider = Some ''events: '', fullKey = ''events: won''\<rparr>)]\<rparr>)"
    by (simp add: wired_store_eq subscript_def GetEntry_def assign_at_def
        ConditionEntry_default_def)
  note c9 = C9_store_invariant [OF 1, of "''events: won''" 0 "DataNode [] [] []"
      None None None None "()"]
  from c9 have 3: "provider_invariant wired_store" by blast
  from c9 have 4: "store_inv (GetProviderNamed ''events: won'' wired_store)" by blast
  from c9 have 5: "store_inv (GetProviderPrefixed ''events: won'' wired_store)" by blast
  from c9 have 6: "store_inv (Clear wired_store)" by blast
  from c9 have "\<forall>w'. subscript ''events: won'' wired_store = Inr w' \<longrightarrow> store_inv w'"
    by blast
  with 2 have 7: "store_inv (wired_store\<lparr>storage := storage wired_store @
        [(''events: won'', \<lparr>value = 0, provider = Some ''events: '', fullKey = ''events: won''\<rparr>)]\<rparr>)"
    by simp
  from 1 2 3 4 5 6 7 show ?thesis by blast
qed

text \<open>
  C10. When the key resolves to an entry that has a provider, \<open>Erase\<close> only calls the
  erase callback of that provider with the key: its result is the result of the callback,
  whichever it is, and the index and the registry of the state returned are those of the
  state given. No entry is removed.
\<close>

theorem C10_erase_provider_frame:
  assumes "GetEntry k w = Inr (Some (j, ce))" "provider ce = Some pn"
  shows "(\<forall>p f. map_of (providers w) pn = Some p \<longrightarrow> eraseFunction p = Some f \<longrightarrow>
            Erase k w = Inr (fst (f k (ext w)), w\<lparr>ext := snd (f k (ext w))\<rparr>)) \<and>
         (\<forall>b w'. Erase k w = Inr (b, w') \<longrightarrow>
            storage w' = storage w \<and> providers w' = providers w)"
proof (intro conjI allI impI)
  fix p f assume "map_of (providers w) pn = Some p" "eraseFunction p = Some f"
  with assms show "Erase k w = Inr (fst (f k (ext w)), w\<lparr>ext := snd (f k (ext w))\<rparr>)"
    by (simp add: Erase_def invoke_Some)
next
  fix b w' assume e: "Erase k w = Inr (b, w')"
  with assms have "\<exists>x. w' = w\<lparr>ext := x\<rparr>"
    by (auto simp: Erase_def split: option.splits dest: invoke_Inr)
  then obtain x where "w' = w\<lparr>ext := x\<rparr>" ..
  then show "storage w' = storage w" "providers w' = providers w" by simp_all
qed

theorem C10_erase_provider_frame_witness:
  "GetEntry ''events: won'' wired_store =
     Inr (Some (''events: '', \<lparr>value = 0, provider = Some ''events: '', fullKey = []\<rparr>)) \<and>
   Erase ''events: won'' wired_store = Inr (False, wired_store) \<and>
   storage wired_store =
     [(''events: '', \<lparr>value = 0, provider = Some ''events: '', fullKey = []\<rparr>)]"
proof -
  let ?ce = "\<lparr>value = 0, provider = Some ''events: '', fullKey = []\<rparr>"
  have 1: "GetEntry ''events: won'' wired_store = Inr (Some (''events: '', ?ce))"
    by (simp add: wired_store_eq GetEntry_def)
  have 2: "provider ?ce = Some ''events: ''" by simp
  have 3: "map_of (providers wired_store) ''events: '' = Some (snd (hd (providers wired_store)))"
    by (simp add: wired_store_eq)
  have 4: "eraseFunction (snd (hd (providers wired_store))) = Some (\<lambda>k x. (False, x))"
    by (simp add: wired_store_eq)
  from C10_erase_provider_frame [OF 1 2, THEN conjunct1, rule_format, OF 3 4]
  have "Erase ''events: won'' wired_store = Inr (False, wired_store)" by simp
  with 1 show ?thesis by (simp add: wired_store_eq)
qed

end
